theory Spec2Isabelle
  imports Complex_Main "HOL-Library.AList" "HOL-Library.Product_Lexorder"
begin

section \<open>Data model of \<^verbatim>\<open>compute_cpm_and_export_pdf\<close> (src/main.py)\<close>

text \<open>
  The scheduling core of \<^verbatim>\<open>compute_cpm_and_export_pdf\<close> is lines 48-132 of src/main.py.
  Its input is the data frame read from the workbook: one row per task, with the columns
  \<^verbatim>\<open>Task\<close>, \<^verbatim>\<open>Duration\<close> and \<^verbatim>\<open>Predecessors\<close>. The model takes the rows with the
  predecessor cell already split at commas and stripped (line 56).

  The \<^verbatim>\<open>Duration\<close> column is used as pandas delivers it (line 49): Python integers when
  every cell is a whole number, Python floats otherwise. A number is modelled by its exact
  value, a real; the arithmetic of the column's number type is a parameter \<open>rnd\<close> of the
  model, the function that turns the exact result of an addition or subtraction into the
  number the operation returns. For an integer column that is the identity (Python
  integers are unbounded); for a float column it is \<open>float_round\<close> below. Comparisons,
  \<^verbatim>\<open>max\<close> and \<^verbatim>\<open>min\<close> are exact in both.
\<close>

record task_row =
  Task :: string
  Duration :: real
  Predecessors :: "string list"

subsection \<open>Float arithmetic\<close>

text \<open>
  IEEE 754 binary64, round to nearest, ties to even: a finite non-zero \<open>x\<close> with
  \<open>2 ^ e \<le> \<bar>x\<bar> < 2 ^ (e + 1)\<close> is rounded to the nearest multiple of \<open>2 ^ (e - 52)\<close>
  (of \<open>2 ^ (- 1074)\<close> in the subnormal range \<open>e < - 1022\<close>). Overflow to infinity and
  not-a-number are outside the model.
\<close>

text \<open>The number of binary digits of a natural number.\<close>

fun bit_length :: "nat \<Rightarrow> nat" where
  "bit_length n = (if n = 0 then 0 else Suc (bit_length (n div 2)))"

declare bit_length.simps [simp del]

definition pow2 :: "int \<Rightarrow> real" where
  "pow2 e = (if 0 \<le> e then 2 ^ nat e else 1 / 2 ^ nat (- e))"

text \<open>The exponent \<open>e\<close> with \<open>2 ^ e \<le> \<bar>x\<bar> < 2 ^ (e + 1)\<close>, for \<open>x \<noteq> 0\<close>.\<close>

definition binade :: "real \<Rightarrow> int" where
  "binade x =
     (if 1 \<le> \<bar>x\<bar> then int (bit_length (nat \<lfloor>\<bar>x\<bar>\<rfloor>)) - 1
      else - int (bit_length (nat (\<lceil>1 / \<bar>x\<bar>\<rceil> - 1))))"

definition round_half_even :: "real \<Rightarrow> int" where
  "round_half_even x =
     (let f = \<lfloor>x\<rfloor>; d = x - of_int f
      in if d < 1 / 2 then f else if 1 / 2 < d then f + 1 else if even f then f else f + 1)"

definition float_round :: "real \<Rightarrow> real" where
  "float_round x =
     (if x = 0 then 0
      else let ulp = pow2 (max (binade x) (- 1022) - 52)
           in sgn x * of_int (round_half_even (\<bar>x\<bar> / ulp)) * ulp)"

subsection \<open>Exceptions and dictionaries\<close>

text \<open>
  The exceptions the core can raise: \<^verbatim>\<open>KeyError\<close> from a subscript \<^verbatim>\<open>d[k]\<close> on a missing
  key, and \<^verbatim>\<open>ValueError\<close> from \<^verbatim>\<open>max\<close> or \<^verbatim>\<open>min\<close> of an empty sequence.
\<close>

datatype error = KeyError string | ValueError

text \<open>
  A Python \<^verbatim>\<open>dict\<close> keeps its keys in insertion order; assigning to a key that is present
  replaces the value in place, assigning to a new key appends it. An association list
  with \<^const>\<open>AList.update\<close> does the same.
\<close>

type_synonym 'v dict = "(string \<times> 'v) list"

definition setitem :: "string \<Rightarrow> 'v \<Rightarrow> 'v dict \<Rightarrow> 'v dict" where
  "setitem k v d = AList.update k v d"

definition getitem :: "'v dict \<Rightarrow> string \<Rightarrow> error + 'v" where
  "getitem d k = (case map_of d k of None \<Rightarrow> Inl (KeyError k) | Some v \<Rightarrow> Inr v)"

text \<open>\<^verbatim>\<open>d.values()\<close>\<close>

definition dict_values :: "'v dict \<Rightarrow> 'v list" where
  "dict_values d = map snd d"

text \<open>
  \<^verbatim>\<open>successors\<close> is a \<^verbatim>\<open>defaultdict(list)\<close>: reading a missing key gives the empty list
  (and stores it, which no later statement can observe: the keys are never listed).
\<close>

definition dd_get :: "string list dict \<Rightarrow> string \<Rightarrow> string list" where
  "dd_get d k = (case map_of d k of None \<Rightarrow> [] | Some v \<Rightarrow> v)"

text \<open>\<^verbatim>\<open>d[k] for k in ks\<close>, evaluated left to right, stopping at the first missing key.\<close>

fun getitems :: "'v dict \<Rightarrow> string list \<Rightarrow> error + 'v list" where
  "getitems d [] = Inr []"
| "getitems d (k # ks) =
     (case getitem d k of Inl e \<Rightarrow> Inl e
      | Inr v \<Rightarrow> (case getitems d ks of Inl e \<Rightarrow> Inl e | Inr vs \<Rightarrow> Inr (v # vs)))"

text \<open>\<^verbatim>\<open>max\<close> and \<^verbatim>\<open>min\<close> of a sequence of numbers.\<close>

fun py_max :: "real list \<Rightarrow> error + real" where
  "py_max [] = Inl ValueError"
| "py_max (x # xs) = Inr (fold max xs x)"

fun py_min :: "real list \<Rightarrow> error + real" where
  "py_min [] = Inl ValueError"
| "py_min (x # xs) = Inr (fold min xs x)"

text \<open>
  \<^verbatim>\<open>max(xs, key=f)\<close>: the running maximum is replaced only by an item whose key is
  strictly greater, so the first item with the greatest key is returned.
\<close>

fun py_max_key :: "('a \<Rightarrow> 'k::linorder) \<Rightarrow> 'a list \<Rightarrow> error + 'a" where
  "py_max_key f [] = Inl ValueError"
| "py_max_key f (x # xs) = Inr (fold (\<lambda>y m. if f m < f y then y else m) xs x)"

section \<open>Graph construction (lines 48-59)\<close>

definition tasks_of :: "task_row list \<Rightarrow> string list" where
  "tasks_of rows = map Task rows"

text \<open>\<^verbatim>\<open>duration = dict(zip(df['Task'], df['Duration']))\<close>\<close>

definition duration_dict :: "task_row list \<Rightarrow> real dict" where
  "duration_dict rows = fold (\<lambda>row d. setitem (Task row) (Duration row) d) rows []"

text \<open>\<^verbatim>\<open>for p in preds: successors[p].append(task)\<close>\<close>

fun append_successors :: "string \<Rightarrow> string list \<Rightarrow> string list dict \<Rightarrow> string list dict" where
  "append_successors task [] succ = succ"
| "append_successors task (p # ps) succ =
     append_successors task ps (setitem p (dd_get succ p @ [task]) succ)"

text \<open>The loop over the rows (lines 54-59), on the pair of dictionaries it fills.\<close>

fun build_graph ::
  "task_row list \<Rightarrow> string list dict \<times> string list dict \<Rightarrow> string list dict \<times> string list dict"
where
  "build_graph [] (pred, succ) = (pred, succ)"
| "build_graph (row # rows) (pred, succ) =
     build_graph rows
       (setitem (Task row) (Predecessors row) pred,
        append_successors (Task row) (Predecessors row) succ)"

definition predecessors_dict :: "task_row list \<Rightarrow> string list dict" where
  "predecessors_dict rows = fst (build_graph rows ([], []))"

definition successors_dict :: "task_row list \<Rightarrow> string list dict" where
  "successors_dict rows = snd (build_graph rows ([], []))"

section \<open>Topological sort (lines 64-74)\<close>

text \<open>\<^verbatim>\<open>in_degree = {t: len(predecessors[t]) for t in tasks}\<close>\<close>

fun in_degree_init :: "string list \<Rightarrow> string list dict \<Rightarrow> int dict \<Rightarrow> error + int dict" where
  "in_degree_init [] pred deg = Inr deg"
| "in_degree_init (t # ts) pred deg =
     (case getitem pred t of Inl e \<Rightarrow> Inl e
      | Inr ps \<Rightarrow> in_degree_init ts pred (setitem t (int (length ps)) deg))"

text \<open>\<^verbatim>\<open>queue = deque([t for t in tasks if in_degree[t] == 0])\<close>\<close>

fun queue_init :: "string list \<Rightarrow> int dict \<Rightarrow> error + string list" where
  "queue_init [] deg = Inr []"
| "queue_init (t # ts) deg =
     (case getitem deg t of Inl e \<Rightarrow> Inl e
      | Inr d \<Rightarrow> (case queue_init ts deg of Inl e \<Rightarrow> Inl e
                 | Inr q \<Rightarrow> Inr (if d = 0 then t # q else q)))"

text \<open>
  The inner loop (lines 71-74) over the successors of the dequeued node:
  \<^verbatim>\<open>in_degree[succ] -= 1\<close> reads the key (a \<^verbatim>\<open>KeyError\<close> if it is missing) and writes it
  back; the test on line 73 reads the value just written.
\<close>

fun relax :: "string list \<Rightarrow> int dict \<times> string list \<Rightarrow> error + (int dict \<times> string list)" where
  "relax [] (deg, queue) = Inr (deg, queue)"
| "relax (s # ss) (deg, queue) =
     (case getitem deg s of Inl e \<Rightarrow> Inl e
      | Inr d \<Rightarrow> relax ss (setitem s (d - 1) deg, if d - 1 = 0 then queue @ [s] else queue))"

text \<open>Entries of \<^verbatim>\<open>in_degree\<close> that are still positive: they bound the enqueues to come.\<close>

definition positive_entries :: "int dict \<Rightarrow> nat" where
  "positive_entries deg = length (filter (\<lambda>kv. 0 < snd kv) deg)"

lemma positive_entries_update:
  "map_of deg s = Some d \<Longrightarrow>
   positive_entries (AList.update s (d - 1) deg) + (if d - 1 = 0 then 1 else 0)
     \<le> positive_entries deg"
proof (induction deg)
  case Nil
  then show ?case by simp
next
  case (Cons kv deg)
  show ?case
  proof (cases "fst kv = s")
    case True
    with Cons.prems have "snd kv = d" by (cases kv) simp
    with True show ?thesis by (cases kv) (simp add: positive_entries_def)
  next
    case False
    with Cons.prems have "map_of deg s = Some d" by (cases kv) simp
    from Cons.IH [OF this] False show ?thesis
      by (cases kv) (simp add: positive_entries_def)
  qed
qed

lemma relax_measure:
  "relax ss (deg, queue) = Inr (deg', queue') \<Longrightarrow>
   2 * positive_entries deg' + length queue' \<le> 2 * positive_entries deg + length queue"
proof (induction ss arbitrary: deg queue)
  case Nil
  then show ?case by simp
next
  case (Cons s ss)
  from Cons.prems obtain d where d: "map_of deg s = Some d"
    and r: "relax ss (setitem s (d - 1) deg, if d - 1 = 0 then queue @ [s] else queue)
              = Inr (deg', queue')"
    by (auto simp: getitem_def split: option.splits)
  from Cons.IH [OF r] positive_entries_update [OF d] show ?case
    by (auto simp: setitem_def split: if_splits)
qed

text \<open>The \<^verbatim>\<open>while queue:\<close> loop (lines 68-74).\<close>

function kahn_loop ::
  "string list dict \<Rightarrow> string list \<Rightarrow> int dict \<Rightarrow> string list \<Rightarrow> error + string list"
where
  "kahn_loop succ [] deg topo = Inr topo"
| "kahn_loop succ (node # queue) deg topo =
     (case relax (dd_get succ node) (deg, queue) of Inl e \<Rightarrow> Inl e
      | Inr (deg', queue') \<Rightarrow> kahn_loop succ queue' deg' (topo @ [node]))"
  by pat_completeness auto
termination
proof (relation "measure (\<lambda>(succ, queue, deg, topo). 2 * positive_entries deg + length queue)")
  show "wf (measure (\<lambda>(succ, queue, deg, topo). 2 * positive_entries deg + length queue))"
    by simp
next
  fix succ :: "string list dict" and node queue deg topo x2 deg' queue'
  assume "relax (dd_get succ node) (deg, queue) = Inr x2" and "(deg', queue') = x2"
  then have "relax (dd_get succ node) (deg, queue) = Inr (deg', queue')" by simp
  from relax_measure [OF this]
  show "((succ, queue', deg', topo @ [node]), (succ, node # queue, deg, topo))
        \<in> measure (\<lambda>(succ, queue, deg, topo). 2 * positive_entries deg + length queue)"
    by simp
qed

definition topological_sort ::
  "string list \<Rightarrow> string list dict \<Rightarrow> string list dict \<Rightarrow> error + string list"
where
  "topological_sort tasks pred succ =
     (case in_degree_init tasks pred [] of Inl e \<Rightarrow> Inl e
      | Inr deg \<Rightarrow> (case queue_init tasks deg of Inl e \<Rightarrow> Inl e
                   | Inr queue \<Rightarrow> kahn_loop succ queue deg []))"

section \<open>Forward pass (lines 79-87)\<close>

fun forward_pass ::
  "(real \<Rightarrow> real) \<Rightarrow> string list \<Rightarrow> string list dict \<Rightarrow> real dict
     \<Rightarrow> real dict \<times> real dict \<Rightarrow> error + (real dict \<times> real dict)"
where
  "forward_pass rnd [] pred dur (es, ef) = Inr (es, ef)"
| "forward_pass rnd (task # ts) pred dur (es, ef) =
     (case getitem pred task of Inl e \<Rightarrow> Inl e
      | Inr ps \<Rightarrow>
          (case (if ps = [] then Inr 0
                 else (case getitems ef ps of Inl e \<Rightarrow> Inl e | Inr vs \<Rightarrow> py_max vs)) of
             Inl e \<Rightarrow> Inl e
           | Inr start \<Rightarrow>
               (case getitem dur task of Inl e \<Rightarrow> Inl e
                | Inr d \<Rightarrow>
                    forward_pass rnd ts pred dur
                      (setitem task start es, setitem task (rnd (start + d)) ef))))"

section \<open>Backward pass and slack (lines 92-100)\<close>

fun backward_pass ::
  "(real \<Rightarrow> real) \<Rightarrow> string list \<Rightarrow> string list dict \<Rightarrow> real dict \<Rightarrow> real
     \<Rightarrow> real dict \<times> real dict \<Rightarrow> error + (real dict \<times> real dict)"
where
  "backward_pass rnd [] succ dur project_duration (ls, lf) = Inr (ls, lf)"
| "backward_pass rnd (task # ts) succ dur project_duration (ls, lf) =
     (case (if dd_get succ task = [] then Inr project_duration
            else (case getitems ls (dd_get succ task) of Inl e \<Rightarrow> Inl e
                  | Inr vs \<Rightarrow> py_min vs)) of
        Inl e \<Rightarrow> Inl e
      | Inr finish \<Rightarrow>
          (case getitem dur task of Inl e \<Rightarrow> Inl e
           | Inr d \<Rightarrow>
               backward_pass rnd ts succ dur project_duration
                 (setitem task (rnd (finish - d)) ls, setitem task finish lf)))"

text \<open>\<^verbatim>\<open>slack = {t: LS[t] - ES[t] for t in tasks}\<close>\<close>

fun slack_dict ::
  "(real \<Rightarrow> real) \<Rightarrow> string list \<Rightarrow> real dict \<Rightarrow> real dict \<Rightarrow> real dict
     \<Rightarrow> error + real dict"
where
  "slack_dict rnd [] ls es sl = Inr sl"
| "slack_dict rnd (t # ts) ls es sl =
     (case getitem ls t of Inl e \<Rightarrow> Inl e
      | Inr l \<Rightarrow> (case getitem es t of Inl e \<Rightarrow> Inl e
                 | Inr s \<Rightarrow> slack_dict rnd ts ls es (setitem t (rnd (l - s)) sl)))"

section \<open>Critical path selection (lines 108-132)\<close>

type_synonym path_info = "real \<times> nat \<times> string list"

text \<open>\<^verbatim>\<open>best_info.get(p, (0, 0, []))\<close>\<close>

definition info_get :: "path_info dict \<Rightarrow> string \<Rightarrow> path_info" where
  "info_get best_info p = (case map_of best_info p of None \<Rightarrow> (0, 0, []) | Some v \<Rightarrow> v)"

text \<open>The slice \<^verbatim>\<open>[:2]\<close> of a path info: the pair compared lexicographically.\<close>

definition info_key :: "path_info \<Rightarrow> real \<times> nat" where
  "info_key v = (fst v, fst (snd v))"

text \<open>
  The loop of lines 109-120. \<^verbatim>\<open>predecessors[task]\<close> is read on line 111 and again on
  line 116, with the same result.
\<close>

fun best_info_loop ::
  "(real \<Rightarrow> real) \<Rightarrow> string list \<Rightarrow> string list dict \<Rightarrow> real dict \<Rightarrow> path_info dict
     \<Rightarrow> error + path_info dict"
where
  "best_info_loop rnd [] pred dur best_info = Inr best_info"
| "best_info_loop rnd (task # ts) pred dur best_info =
     (case getitem dur task of Inl e \<Rightarrow> Inl e
      | Inr d \<Rightarrow>
          (case getitem pred task of Inl e \<Rightarrow> Inl e
           | Inr ps \<Rightarrow>
               if ps = [] then
                 best_info_loop rnd ts pred dur (setitem task (d, 1, [task]) best_info)
               else
                 (case py_max_key (\<lambda>p. info_key (info_get best_info p)) ps of
                    Inl e \<Rightarrow> Inl e
                  | Inr prev \<Rightarrow>
                      (case info_get best_info prev of
                         (prev_dur, prev_count, prev_path) \<Rightarrow>
                           best_info_loop rnd ts pred dur
                             (setitem task
                                (rnd (prev_dur + d), prev_count + 1, prev_path @ [task])
                                best_info)))))"

text \<open>\<^verbatim>\<open>end_tasks = [t for t in tasks if not successors[t]]\<close>\<close>

definition end_tasks :: "string list \<Rightarrow> string list dict \<Rightarrow> string list" where
  "end_tasks tasks succ = filter (\<lambda>t. dd_get succ t = []) tasks"

text \<open>The loop of lines 125-130 on the pair \<^verbatim>\<open>(best_tuple, critical_path)\<close>.\<close>

fun select_path ::
  "string list \<Rightarrow> path_info dict \<Rightarrow> (real \<times> nat) \<times> string list
     \<Rightarrow> (real \<times> nat) \<times> string list"
where
  "select_path [] best_info (best_tuple, critical_path) = (best_tuple, critical_path)"
| "select_path (t # ts) best_info (best_tuple, critical_path) =
     (case info_get best_info t of
        (tot_dur, cnt, path) \<Rightarrow>
          if best_tuple < (tot_dur, cnt) then select_path ts best_info ((tot_dur, cnt), path)
          else select_path ts best_info (best_tuple, critical_path))"

section \<open>The whole computation\<close>

record schedule =
  topo_order :: "string list"
  ES :: "real dict"
  EF :: "real dict"
  project_duration :: real
  LS :: "real dict"
  LF :: "real dict"
  slack :: "real dict"
  best_info :: "path_info dict"
  critical_path :: "string list"

definition compute_cpm :: "(real \<Rightarrow> real) \<Rightarrow> task_row list \<Rightarrow> error + schedule" where
  "compute_cpm rnd rows =
     (let tasks = tasks_of rows;
          dur = duration_dict rows;
          pred = predecessors_dict rows;
          succ = successors_dict rows
      in case topological_sort tasks pred succ of Inl e \<Rightarrow> Inl e
         | Inr topo \<Rightarrow>
      (case forward_pass rnd topo pred dur ([], []) of Inl e \<Rightarrow> Inl e
         | Inr (es, ef) \<Rightarrow>
      (case py_max (dict_values ef) of Inl e \<Rightarrow> Inl e
         | Inr pd \<Rightarrow>
      (case backward_pass rnd (rev topo) succ dur pd ([], []) of Inl e \<Rightarrow> Inl e
         | Inr (ls, lf) \<Rightarrow>
      (case slack_dict rnd tasks ls es [] of Inl e \<Rightarrow> Inl e
         | Inr sl \<Rightarrow>
      (case best_info_loop rnd topo pred dur [] of Inl e \<Rightarrow> Inl e
         | Inr bi \<Rightarrow>
           Inr \<lparr> topo_order = topo, ES = es, EF = ef, project_duration = pd,
                 LS = ls, LF = lf, slack = sl, best_info = bi,
                 critical_path =
                   snd (select_path (end_tasks tasks succ) bi ((0, 0), [])) \<rparr>))))))"

section \<open>Dictionaries\<close>

lemma map_of_setitem: "map_of (setitem k v d) = (map_of d)(k \<mapsto> v)"
  by (simp add: setitem_def update_conv')

lemma getitem_Inr_iff: "getitem d k = Inr v \<longleftrightarrow> map_of d k = Some v"
  by (simp add: getitem_def split: option.splits)

lemma getitem_Inl_iff: "getitem d k = Inl e \<longleftrightarrow> map_of d k = None \<and> e = KeyError k"
  by (auto simp: getitem_def split: option.splits)

lemma dd_get_setitem:
  "dd_get (setitem k v d) k' = (if k' = k then v else dd_get d k')"
  by (simp add: dd_get_def map_of_setitem)

lemma getitems_Inr_iff:
  "getitems d ks = Inr vs \<longleftrightarrow> map (map_of d) ks = map Some vs"
proof (induction ks arbitrary: vs)
  case Nil
  then show ?case by auto
next
  case (Cons k ks)
  show ?case
  proof (cases "getitem d k")
    case (Inl e)
    then have "map_of d k = None" by (simp add: getitem_Inl_iff)
    with Inl show ?thesis by auto
  next
    case (Inr v)
    then have v: "map_of d k = Some v" by (simp add: getitem_Inr_iff)
    show ?thesis
    proof (cases "getitems d ks")
      case (Inl e)
      with Cons.IH have "\<And>ws. map (map_of d) ks \<noteq> map Some ws" by simp
      with Inl Inr show ?thesis by (cases vs) auto
    next
      case (Inr ws)
      with Cons.IH [of ws] have ws: "map (map_of d) ks = map Some ws" by simp
      have inj: "\<And>us. map Some ws = map Some us \<longleftrightarrow> ws = us"
        by (simp add: inj_map_eq_map)
      from Inr \<open>getitem d k = Inr v\<close> v ws inj show ?thesis by (cases vs) auto
    qed
  qed
qed

lemma getitems_total:
  "set ks \<subseteq> dom (map_of d) \<Longrightarrow> getitems d ks = Inr (map (\<lambda>k. the (map_of d k)) ks)"
  by (induction ks) (auto simp: getitem_def)

lemma getitems_dom: "getitems d ks = Inr vs \<Longrightarrow> set ks \<subseteq> dom (map_of d)"
proof -
  assume "getitems d ks = Inr vs"
  then have eq: "map (map_of d) ks = map Some vs" by (simp add: getitems_Inr_iff)
  show ?thesis
  proof
    fix k assume "k \<in> set ks"
    then have "map_of d k \<in> set (map (map_of d) ks)" by simp
    with eq have "map_of d k \<in> set (map Some vs)" by simp
    then show "k \<in> dom (map_of d)" by auto
  qed
qed

lemma getitems_values:
  "getitems d ks = Inr vs \<Longrightarrow> vs = map (\<lambda>k. the (map_of d k)) ks"
proof -
  assume a: "getitems d ks = Inr vs"
  from getitems_total [OF getitems_dom [OF a]] a show ?thesis by simp
qed

lemma fold_max_eq: "fold max xs (x::real) = Max (set (x # xs))"
  by (rule Max.set_eq_fold [symmetric])

lemma fold_min_eq: "fold min xs (x::real) = Min (set (x # xs))"
  by (rule Min.set_eq_fold [symmetric])

lemma py_max_Inr: "xs \<noteq> [] \<Longrightarrow> py_max xs = Inr (Max (set xs))"
  by (cases xs) (simp_all add: Max.set_eq_fold del: set_simps)

lemma py_min_Inr: "xs \<noteq> [] \<Longrightarrow> py_min xs = Inr (Min (set xs))"
  by (cases xs) (simp_all add: Min.set_eq_fold del: set_simps)

lemma py_max_Inl: "py_max xs = Inl e \<longleftrightarrow> xs = [] \<and> e = ValueError"
  by (cases xs) auto

section \<open>The dictionaries built from the rows\<close>

lemma fold_setitem_other:
  "k \<notin> f ` set rows \<Longrightarrow>
   map_of (fold (\<lambda>r. setitem (f r) (g r)) rows d) k = map_of d k"
  by (induction rows arbitrary: d) (auto simp: map_of_setitem)

lemma fold_setitem_row:
  "distinct (map f rows) \<Longrightarrow> r \<in> set rows \<Longrightarrow>
   map_of (fold (\<lambda>r. setitem (f r) (g r)) rows d) (f r) = Some (g r)"
proof (induction rows arbitrary: d)
  case Nil
  then show ?case by simp
next
  case (Cons a rows)
  show ?case
  proof (cases "r \<in> set rows")
    case True
    with Cons show ?thesis by simp
  next
    case False
    with Cons.prems have [simp]: "r = a" and "f a \<notin> f ` set rows" by auto
    then show ?thesis by (simp add: fold_setitem_other map_of_setitem)
  qed
qed

lemma build_graph_fst:
  "fst (build_graph rows (pred, succ)) =
     fold (\<lambda>r. setitem (Task r) (Predecessors r)) rows pred"
  by (induction rows arbitrary: pred succ) simp_all

lemma build_graph_snd:
  "snd (build_graph rows (pred, succ)) =
     fold (\<lambda>r. append_successors (Task r) (Predecessors r)) rows succ"
  by (induction rows arbitrary: pred succ) simp_all

lemma dd_get_append_successors:
  "dd_get (append_successors t ps succ) p = dd_get succ p @ replicate (count_list ps p) t"
  by (induction ps arbitrary: succ) (auto simp: dd_get_setitem replicate_append_same)

text \<open>
  The graph as a reader of the rows sees it: the tasks that name \<open>p\<close> as a predecessor, in
  row order and once per mention (what \<^verbatim>\<open>successors[p]\<close> holds, lemma
  \<open>dd_get_successors_dict\<close>); the declared predecessors of a task; its duration. A task
  that is no row has no predecessors and duration 0 here.
\<close>

definition succs_of :: "task_row list \<Rightarrow> string \<Rightarrow> string list" where
  "succs_of rows p =
     concat (map (\<lambda>r. replicate (count_list (Predecessors r) p) (Task r)) rows)"

definition preds_of :: "task_row list \<Rightarrow> string \<Rightarrow> string list" where
  "preds_of rows t =
     (case find (\<lambda>r. Task r = t) rows of None \<Rightarrow> [] | Some r \<Rightarrow> Predecessors r)"

definition dur_of :: "task_row list \<Rightarrow> string \<Rightarrow> real" where
  "dur_of rows t =
     (case find (\<lambda>r. Task r = t) rows of None \<Rightarrow> 0 | Some r \<Rightarrow> Duration r)"

lemma dd_get_fold_append_successors:
  "dd_get (fold (\<lambda>r. append_successors (Task r) (Predecessors r)) rows succ) p =
     dd_get succ p @ succs_of rows p"
  by (induction rows arbitrary: succ) (simp_all add: succs_of_def dd_get_append_successors)

lemma dd_get_successors_dict: "dd_get (successors_dict rows) p = succs_of rows p"
  by (simp add: successors_dict_def build_graph_snd dd_get_fold_append_successors)
     (simp add: dd_get_def)

lemma find_distinct_row:
  "distinct (map f rows) \<Longrightarrow> r \<in> set rows \<Longrightarrow> find (\<lambda>x. f x = f r) rows = Some r"
  by (induction rows) auto

lemma find_None_notin: "t \<notin> f ` set rows \<Longrightarrow> find (\<lambda>x. f x = t) rows = None"
  by (induction rows) auto

lemma preds_of_row:
  "distinct (tasks_of rows) \<Longrightarrow> r \<in> set rows \<Longrightarrow> preds_of rows (Task r) = Predecessors r"
  by (simp add: preds_of_def tasks_of_def find_distinct_row)

lemma dur_of_row:
  "distinct (tasks_of rows) \<Longrightarrow> r \<in> set rows \<Longrightarrow> dur_of rows (Task r) = Duration r"
  by (simp add: dur_of_def tasks_of_def find_distinct_row)

lemma map_of_predecessors_dict:
  assumes "distinct (tasks_of rows)"
  shows "map_of (predecessors_dict rows) t =
           (if t \<in> set (tasks_of rows) then Some (preds_of rows t) else None)"
proof (cases "t \<in> set (tasks_of rows)")
  case True
  then obtain r where r: "r \<in> set rows" "t = Task r" by (auto simp: tasks_of_def)
  with assms show ?thesis
    using fold_setitem_row [of Task rows r Predecessors "[]"]
    by (simp add: predecessors_dict_def build_graph_fst preds_of_row tasks_of_def)
next
  case False
  then show ?thesis
    using fold_setitem_other [of t Task rows Predecessors "[]"]
    by (simp add: predecessors_dict_def build_graph_fst tasks_of_def)
qed

lemma map_of_duration_dict:
  assumes "distinct (tasks_of rows)"
  shows "map_of (duration_dict rows) t =
           (if t \<in> set (tasks_of rows) then Some (dur_of rows t) else None)"
proof (cases "t \<in> set (tasks_of rows)")
  case True
  then obtain r where r: "r \<in> set rows" "t = Task r" by (auto simp: tasks_of_def)
  with assms show ?thesis
    using fold_setitem_row [of Task rows r Duration "[]"]
    by (simp add: duration_dict_def dur_of_row tasks_of_def)
next
  case False
  then show ?thesis
    using fold_setitem_other [of t Task rows Duration "[]"]
    by (simp add: duration_dict_def tasks_of_def)
qed

lemma count_list_replicate: "count_list (replicate n x) y = (if x = y then n else 0)"
  by (induction n) auto

lemma count_list_concat_replicate:
  "count_list (concat (map (\<lambda>r. replicate (n r) (f r)) rows)) s =
     sum_list (map (\<lambda>r. if f r = s then n r else 0) rows)"
  by (induction rows) (auto simp: count_list_append count_list_replicate)

section \<open>Kahn's loop\<close>

lemma count_list_pos: "0 < count_list xs x \<longleftrightarrow> x \<in> set xs"
  by (induction xs) auto

lemma relax_result:
  assumes "set ss \<subseteq> dom (map_of deg)"
  shows "\<exists>deg' new. relax ss (deg, q) = Inr (deg', q @ new)
           \<and> (\<forall>t. map_of deg' t = map_option (\<lambda>d. d - int (count_list ss t)) (map_of deg t))
           \<and> distinct new
           \<and> set new = {s \<in> set ss. \<exists>d. map_of deg s = Some d \<and> 1 \<le> d
                                       \<and> d \<le> int (count_list ss s)}"
  using assms
proof (induction ss arbitrary: deg q)
  case Nil
  then show ?case by (simp add: option.map_ident)
next
  case (Cons s ss)
  from Cons.prems obtain d where d: "map_of deg s = Some d" by auto
  let ?deg1 = "setitem s (d - 1) deg"
  let ?q1 = "if d - 1 = 0 then q @ [s] else q"
  have m1: "map_of ?deg1 = (map_of deg)(s \<mapsto> d - 1)" by (rule map_of_setitem)
  from Cons.prems have "set ss \<subseteq> dom (map_of ?deg1)" by (auto simp: m1)
  from Cons.IH [OF this, of ?q1] obtain deg' new1 where
    r: "relax ss (?deg1, ?q1) = Inr (deg', ?q1 @ new1)"
    and v: "\<forall>t. map_of deg' t = map_option (\<lambda>d. d - int (count_list ss t)) (map_of ?deg1 t)"
    and dn: "distinct new1"
    and sn: "set new1 = {x \<in> set ss. \<exists>e. map_of ?deg1 x = Some e \<and> 1 \<le> e
                                       \<and> e \<le> int (count_list ss x)}"
    by blast
  let ?new = "(if d - 1 = 0 then [s] else []) @ new1"
  have 1: "relax (s # ss) (deg, q) = Inr (deg', q @ ?new)"
    using d r by (simp add: getitem_def)
  have 2: "\<forall>t. map_of deg' t = map_option (\<lambda>d. d - int (count_list (s # ss) t)) (map_of deg t)"
    using v d by (auto simp: m1)
  have s_new1: "s \<in> set new1 \<longleftrightarrow> s \<in> set ss \<and> 2 \<le> d \<and> d - 1 \<le> int (count_list ss s)"
    by (auto simp: sn m1)
  have 3: "distinct ?new" using dn s_new1 by auto
  have pos: "s \<in> set ss" if "2 \<le> d" "d - 1 \<le> int (count_list ss s)"
  proof -
    from that have "0 < count_list ss s" by linarith
    then show ?thesis by (simp add: count_list_pos)
  qed
  have 4: "set ?new = {x \<in> set (s # ss). \<exists>e. map_of deg x = Some e \<and> 1 \<le> e
                                            \<and> e \<le> int (count_list (s # ss) x)}"
    (is "_ = ?R")
  proof (rule set_eqI)
    fix x
    show "x \<in> set ?new \<longleftrightarrow> x \<in> ?R"
    proof (cases "x = s")
      case True
      have "x \<in> set ?new \<longleftrightarrow> d = 1 \<or> (s \<in> set ss \<and> 2 \<le> d \<and> d - 1 \<le> int (count_list ss s))"
        using True s_new1 by auto
      also have "\<dots> \<longleftrightarrow> 1 \<le> d \<and> d \<le> 1 + int (count_list ss s)"
        using pos by auto
      also have "\<dots> \<longleftrightarrow> x \<in> ?R" using True d by auto
      finally show ?thesis .
    next
      case False
      then have "x \<in> set ?new \<longleftrightarrow> x \<in> set new1" by auto
      also have "\<dots> \<longleftrightarrow> x \<in> ?R" using False by (auto simp: sn m1)
      finally show ?thesis .
    qed
  qed
  from 1 2 3 4 show ?case by blast
qed

lemma filter_notin_insert:
  "node \<notin> A \<Longrightarrow>
   length (filter (\<lambda>p. p \<notin> A) xs) =
     length (filter (\<lambda>p. p \<notin> insert node A) xs) + count_list xs node"
  by (induction xs) auto

text \<open>
  What Kahn's loop guarantees of its output on any graph, cyclic or not: no task twice,
  only tasks, a task is in the order exactly when all its predecessors are, and the
  predecessors of each task stand before it.
\<close>

definition topo_ok :: "string list \<Rightarrow> (string \<Rightarrow> string list) \<Rightarrow> string list \<Rightarrow> bool" where
  "topo_ok tasks P out \<longleftrightarrow>
     distinct out \<and> set out \<subseteq> set tasks
     \<and> (\<forall>t \<in> set tasks. t \<in> set out \<longleftrightarrow> set (P t) \<subseteq> set out)
     \<and> (\<forall>i < length out. set (P (out ! i)) \<subseteq> set (take i out))"

text \<open>
  The loop invariant: \<^verbatim>\<open>in_degree[t]\<close> counts the predecessor mentions of \<open>t\<close> not yet
  dequeued, and the tasks dequeued or waiting in the queue are those with none left.
\<close>

definition kahn_inv ::
  "string list \<Rightarrow> (string \<Rightarrow> string list) \<Rightarrow> string list \<Rightarrow> int dict \<Rightarrow> string list \<Rightarrow> bool"
where
  "kahn_inv tasks P q deg topo \<longleftrightarrow>
     distinct (topo @ q) \<and> set (topo @ q) \<subseteq> set tasks
     \<and> dom (map_of deg) = set tasks
     \<and> (\<forall>t \<in> set tasks.
           map_of deg t = Some (int (length (filter (\<lambda>p. p \<notin> set topo) (P t)))))
     \<and> (\<forall>t \<in> set tasks. t \<in> set (topo @ q) \<longleftrightarrow> set (P t) \<subseteq> set topo)
     \<and> (\<forall>i < length topo. set (P (topo ! i)) \<subseteq> set (take i topo))"

lemma kahn_inv_step:
  assumes inv: "kahn_inv tasks P (node # queue) deg topo"
    and dual: "\<forall>p s. count_list (dd_get succ p) s = count_list (P s) p"
    and outside: "\<forall>s. s \<notin> set tasks \<longrightarrow> P s = []"
  shows "\<exists>deg' queue'. relax (dd_get succ node) (deg, queue) = Inr (deg', queue')
           \<and> kahn_inv tasks P queue' deg' (topo @ [node])"
proof -
  let ?S = "dd_get succ node"
  from inv have dist: "distinct (topo @ node # queue)"
    and sub: "set (topo @ node # queue) \<subseteq> set tasks"
    and dom: "dom (map_of deg) = set tasks"
    and deg: "\<forall>t \<in> set tasks.
                map_of deg t = Some (int (length (filter (\<lambda>p. p \<notin> set topo) (P t))))"
    and ready: "\<forall>t \<in> set tasks. t \<in> set (topo @ node # queue) \<longleftrightarrow> set (P t) \<subseteq> set topo"
    and ord: "\<forall>i < length topo. set (P (topo ! i)) \<subseteq> set (take i topo)"
    by (simp_all add: kahn_inv_def)
  have node_fresh: "node \<notin> set topo" using dist by auto
  have node_task: "node \<in> set tasks" using sub by auto
  have mem_S: "s \<in> set ?S \<longleftrightarrow> node \<in> set (P s)" for s
  proof -
    have "s \<in> set ?S \<longleftrightarrow> 0 < count_list ?S s" by (simp add: count_list_pos)
    also have "\<dots> \<longleftrightarrow> 0 < count_list (P s) node" using dual by simp
    also have "\<dots> \<longleftrightarrow> node \<in> set (P s)" by (simp add: count_list_pos)
    finally show ?thesis .
  qed
  have S_tasks: "set ?S \<subseteq> set tasks"
  proof
    fix s assume "s \<in> set ?S"
    then have "node \<in> set (P s)" by (simp add: mem_S)
    then have "P s \<noteq> []" by auto
    with outside show "s \<in> set tasks" by blast
  qed
  then have "set ?S \<subseteq> dom (map_of deg)" by (simp add: dom)
  from relax_result [OF this, of queue] obtain deg' new where
    r: "relax ?S (deg, queue) = Inr (deg', queue @ new)"
    and v: "\<forall>t. map_of deg' t = map_option (\<lambda>d. d - int (count_list ?S t)) (map_of deg t)"
    and dn: "distinct new"
    and sn: "set new = {s \<in> set ?S. \<exists>d. map_of deg s = Some d \<and> 1 \<le> d
                                       \<and> d \<le> int (count_list ?S s)}"
    by blast
  have cnt: "length (filter (\<lambda>p. p \<notin> set topo) (P t)) =
               length (filter (\<lambda>p. p \<notin> set (topo @ [node])) (P t)) + count_list ?S t" for t
    using filter_notin_insert [OF node_fresh, of "P t"] dual by simp
  have deg': "\<forall>t \<in> set tasks.
      map_of deg' t = Some (int (length (filter (\<lambda>p. p \<notin> set (topo @ [node])) (P t))))"
  proof
    fix t assume t: "t \<in> set tasks"
    from v deg t have "map_of deg' t =
        Some (int (length (filter (\<lambda>p. p \<notin> set topo) (P t))) - int (count_list ?S t))"
      by simp
    also have "\<dots> = Some (int (length (filter (\<lambda>p. p \<notin> set (topo @ [node])) (P t))))"
      by (subst cnt [of t]) simp
    finally show "map_of deg' t =
        Some (int (length (filter (\<lambda>p. p \<notin> set (topo @ [node])) (P t))))" .
  qed
  have new_iff: "s \<in> set new \<longleftrightarrow>
      s \<in> set tasks \<and> node \<in> set (P s) \<and> set (P s) \<subseteq> set (topo @ [node])" for s
  proof (cases "s \<in> set tasks")
    case False
    with S_tasks show ?thesis by (auto simp: sn)
  next
    case True
    let ?a = "length (filter (\<lambda>p. p \<notin> set (topo @ [node])) (P s))"
    let ?c = "count_list ?S s"
    from True deg cnt [of s] have d: "map_of deg s = Some (int (?a + ?c))" by simp
    have "s \<in> set new \<longleftrightarrow> s \<in> set ?S \<and> 1 \<le> ?a + ?c \<and> ?a + ?c \<le> ?c"
      by (auto simp: sn d)
    also have "\<dots> \<longleftrightarrow> s \<in> set ?S \<and> ?a = 0"
      using count_list_pos [of ?S s] by auto
    also have "\<dots> \<longleftrightarrow> node \<in> set (P s) \<and> set (P s) \<subseteq> set (topo @ [node])"
      by (auto simp: mem_S filter_empty_conv)
    finally show ?thesis using True by simp
  qed
  have ready': "\<forall>t \<in> set tasks.
      t \<in> set ((topo @ [node]) @ queue @ new) \<longleftrightarrow> set (P t) \<subseteq> set (topo @ [node])"
  proof
    fix t assume t: "t \<in> set tasks"
    have "t \<in> set ((topo @ [node]) @ queue @ new)
            \<longleftrightarrow> t \<in> set (topo @ node # queue) \<or> t \<in> set new" by auto
    also have "\<dots> \<longleftrightarrow> set (P t) \<subseteq> set topo
                    \<or> (node \<in> set (P t) \<and> set (P t) \<subseteq> set (topo @ [node]))"
      using ready t by (simp add: new_iff)
    also have "\<dots> \<longleftrightarrow> set (P t) \<subseteq> set (topo @ [node])" 
      by auto
    finally show "t \<in> set ((topo @ [node]) @ queue @ new)
                    \<longleftrightarrow> set (P t) \<subseteq> set (topo @ [node])" .
  qed
  have disj: "set new \<inter> set (topo @ node # queue) = {}"
  proof (rule ccontr)
    assume "set new \<inter> set (topo @ node # queue) \<noteq> {}"
    then obtain t where tn: "t \<in> set new" and tq: "t \<in> set (topo @ node # queue)" by blast
    from tn have tt: "t \<in> set tasks" and np: "node \<in> set (P t)" by (simp_all add: new_iff)
    from ready tt tq have "set (P t) \<subseteq> set topo" by blast
    with np node_fresh show False by blast
  qed
  have dist': "distinct ((topo @ [node]) @ queue @ new)"
    using dist dn disj by auto
  have sub': "set ((topo @ [node]) @ queue @ new) \<subseteq> set tasks"
    using sub new_iff by auto
  have dom': "dom (map_of deg') = set tasks"
    using v dom by (auto simp: dom_def)
  have ord': "\<forall>i < length (topo @ [node]).
                 set (P ((topo @ [node]) ! i)) \<subseteq> set (take i (topo @ [node]))"
  proof (intro allI impI)
    fix i assume i: "i < length (topo @ [node])"
    show "set (P ((topo @ [node]) ! i)) \<subseteq> set (take i (topo @ [node]))"
    proof (cases "i < length topo")
      case True
      with ord show ?thesis by (simp add: nth_append)
    next
      case False
      with i have [simp]: "i = length topo" by simp
      from ready node_task have "set (P node) \<subseteq> set topo" by auto
      then show ?thesis by simp
    qed
  qed
  from dist' sub' dom' deg' ready' ord'
  have "kahn_inv tasks P (queue @ new) deg' (topo @ [node])"
    unfolding kahn_inv_def by blast
  with r show ?thesis by blast
qed

lemma kahn_loop_topo_ok:
  "kahn_inv tasks P q deg topo \<Longrightarrow>
   \<forall>p s. count_list (dd_get succ p) s = count_list (P s) p \<Longrightarrow>
   \<forall>s. s \<notin> set tasks \<longrightarrow> P s = [] \<Longrightarrow>
   \<exists>out. kahn_loop succ q deg topo = Inr out \<and> topo_ok tasks P out"
proof (induction succ q deg topo rule: kahn_loop.induct)
  case (1 succ deg topo)
  then show ?case by (simp add: kahn_inv_def topo_ok_def)
next
  case (2 succ node queue deg topo)
  from kahn_inv_step [OF "2.prems"] obtain deg' queue' where
    r: "relax (dd_get succ node) (deg, queue) = Inr (deg', queue')"
    and inv: "kahn_inv tasks P queue' deg' (topo @ [node])"
    by blast
  from "2.IH" [OF r refl inv "2.prems"(2,3)] r show ?case by simp
qed

text \<open>
  The dependency edges predecessor \<open>\<rightarrow>\<close> task of the rows, and referential integrity: every
  predecessor a row names is the identifier of some row.
\<close>

definition edges :: "task_row list \<Rightarrow> (string \<times> string) set" where
  "edges rows = {(p, Task r) | p r. r \<in> set rows \<and> p \<in> set (Predecessors r)}"

definition refs_exist :: "task_row list \<Rightarrow> bool" where
  "refs_exist rows \<longleftrightarrow> (\<forall>r \<in> set rows. set (Predecessors r) \<subseteq> set (tasks_of rows))"

lemma preds_of_outside: "s \<notin> set (tasks_of rows) \<Longrightarrow> preds_of rows s = []"
  by (simp add: preds_of_def tasks_of_def find_None_notin)

lemma sum_list_find:
  "distinct (map f rows) \<Longrightarrow>
   sum_list (map (\<lambda>r. if f r = s then n r else 0) rows) =
     (case find (\<lambda>r. f r = s) rows of None \<Rightarrow> (0::nat) | Some r \<Rightarrow> n r)"
proof (induction rows)
  case Nil
  then show ?case by simp
next
  case (Cons a rows)
  show ?case
  proof (cases "f a = s")
    case True
    with Cons.prems have "s \<notin> f ` set rows" by auto
    then have "sum_list (map (\<lambda>r. if f r = s then n r else 0) rows) = 0"
      by (induction rows) auto
    with True show ?thesis by simp
  next
    case False
    with Cons show ?thesis by simp
  qed
qed

lemma succs_preds_dual:
  "distinct (tasks_of rows) \<Longrightarrow>
   count_list (succs_of rows p) s = count_list (preds_of rows s) p"
  unfolding succs_of_def preds_of_def tasks_of_def
  by (simp add: count_list_concat_replicate sum_list_find split: option.splits)

lemma edges_preds:
  assumes "distinct (tasks_of rows)"
  shows "(p, t) \<in> edges rows \<longleftrightarrow> t \<in> set (tasks_of rows) \<and> p \<in> set (preds_of rows t)"
proof
  assume "(p, t) \<in> edges rows"
  then obtain r where "r \<in> set rows" "t = Task r" "p \<in> set (Predecessors r)"
    by (auto simp: edges_def)
  with assms show "t \<in> set (tasks_of rows) \<and> p \<in> set (preds_of rows t)"
    by (auto simp: preds_of_row) (simp add: tasks_of_def)
next
  assume a: "t \<in> set (tasks_of rows) \<and> p \<in> set (preds_of rows t)"
  then obtain r where "r \<in> set rows" "t = Task r" by (auto simp: tasks_of_def)
  with a assms show "(p, t) \<in> edges rows" by (auto simp: edges_def preds_of_row)
qed

lemma refs_exist_preds:
  assumes "distinct (tasks_of rows)"
  shows "refs_exist rows \<longleftrightarrow>
           (\<forall>t \<in> set (tasks_of rows). set (preds_of rows t) \<subseteq> set (tasks_of rows))"
proof -
  have "(\<forall>t \<in> set (tasks_of rows). set (preds_of rows t) \<subseteq> set (tasks_of rows))
          \<longleftrightarrow> (\<forall>r \<in> set rows. set (preds_of rows (Task r)) \<subseteq> set (tasks_of rows))"
    by (simp add: tasks_of_def)
  also have "\<dots> \<longleftrightarrow> refs_exist rows"
    using assms by (simp add: refs_exist_def preds_of_row)
  finally show ?thesis by simp
qed

subsection \<open>The initial state\<close>

lemma in_degree_init_result:
  "\<forall>t \<in> set ts. map_of pred t = Some (P t) \<Longrightarrow>
   \<exists>deg'. in_degree_init ts pred deg = Inr deg'
     \<and> (\<forall>t. map_of deg' t =
              (if t \<in> set ts then Some (int (length (P t))) else map_of deg t))"
proof (induction ts arbitrary: deg)
  case Nil
  then show ?case by simp
next
  case (Cons a ts)
  from Cons.prems have a: "getitem pred a = Inr (P a)" by (simp add: getitem_Inr_iff)
  from Cons.prems have "\<forall>t \<in> set ts. map_of pred t = Some (P t)" by simp
  from Cons.IH [OF this, of "setitem a (int (length (P a))) deg"] a
  show ?case by (auto simp: map_of_setitem)
qed

lemma queue_init_result:
  "\<forall>t \<in> set ts. map_of deg t = Some (d t) \<Longrightarrow>
   queue_init ts deg = Inr (filter (\<lambda>t. d t = 0) ts)"
  by (induction ts) (simp_all add: getitem_def)

lemma topological_sort_ok:
  assumes dist: "distinct (tasks_of rows)"
  shows "\<exists>out. topological_sort (tasks_of rows) (predecessors_dict rows) (successors_dict rows)
                 = Inr out
               \<and> topo_ok (tasks_of rows) (preds_of rows) out"
proof -
  let ?tasks = "tasks_of rows" and ?P = "preds_of rows"
  have "\<forall>t \<in> set ?tasks. map_of (predecessors_dict rows) t = Some (?P t)"
    by (simp add: map_of_predecessors_dict [OF dist])
  from in_degree_init_result [OF this, of "[]"] obtain deg where
    i: "in_degree_init ?tasks (predecessors_dict rows) [] = Inr deg"
    and d: "\<forall>t. map_of deg t =
              (if t \<in> set ?tasks then Some (int (length (?P t))) else None)"
    by auto
  from d have "\<forall>t \<in> set ?tasks. map_of deg t = Some (int (length (?P t)))" by simp
  from queue_init_result [OF this]
  have q: "queue_init ?tasks deg = Inr (filter (\<lambda>t. ?P t = []) ?tasks)" by simp
  let ?q = "filter (\<lambda>t. ?P t = []) ?tasks"
  have dom: "dom (map_of deg) = set ?tasks" using d by (auto simp: dom_def split: if_splits)
  have inv: "kahn_inv ?tasks ?P ?q deg []"
    unfolding kahn_inv_def using dist d dom by auto
  have dual: "\<forall>p s. count_list (dd_get (successors_dict rows) p) s = count_list (?P s) p"
    by (simp add: dd_get_successors_dict succs_preds_dual [OF dist])
  have outside: "\<forall>s. s \<notin> set ?tasks \<longrightarrow> ?P s = []"
    by (simp add: preds_of_outside)
  from kahn_loop_topo_ok [OF inv dual outside] i q show ?thesis
    by (simp add: topological_sort_def)
qed

subsection \<open>A complete order exists exactly for a closed acyclic graph\<close>

lemma topo_ok_complete:
  assumes ok: "topo_ok tasks P out"
    and closed: "\<forall>t \<in> set tasks. set (P t) \<subseteq> set tasks"
    and acyc: "acyclic {(p, t). t \<in> set tasks \<and> p \<in> set (P t)}"
  shows "set out = set tasks"
proof (rule ccontr)
  let ?E = "{(p, t). t \<in> set tasks \<and> p \<in> set (P t)}"
  assume "set out \<noteq> set tasks"
  with ok obtain x where x: "x \<in> set tasks - set out" by (auto simp: topo_ok_def)
  have "?E \<subseteq> set tasks \<times> set tasks" using closed by auto
  then have "finite ?E" by (rule finite_subset) simp
  with acyc have "wf ?E" by (simp add: finite_acyclic_wf)
  with x obtain z where z: "z \<in> set tasks - set out"
    and min: "\<And>y. (y, z) \<in> ?E \<Longrightarrow> y \<notin> set tasks - set out"
    unfolding wf_eq_minimal by blast
  have "set (P z) \<subseteq> set out"
  proof
    fix y assume y: "y \<in> set (P z)"
    with z have "(y, z) \<in> ?E" by simp
    from min [OF this] y z closed show "y \<in> set out" by blast
  qed
  with ok z show False by (auto simp: topo_ok_def)
qed

lemma topo_ok_before:
  assumes ok: "topo_ok tasks P out"
  shows "(a, b) \<in> {(p, t). t \<in> set out \<and> p \<in> set (P t)}\<^sup>+ \<Longrightarrow>
         \<forall>i < length out. out ! i = b \<longrightarrow> (\<exists>j < i. out ! j = a)"
proof (induction rule: trancl.induct)
  case (r_into_trancl a b)
  show ?case
  proof (intro allI impI)
    fix i assume i: "i < length out" "out ! i = b"
    with ok have "set (P b) \<subseteq> set (take i out)" by (auto simp: topo_ok_def)
    with r_into_trancl have "a \<in> set (take i out)" by auto
    then show "\<exists>j < i. out ! j = a" using i by (auto simp: in_set_conv_nth)
  qed
next
  case (trancl_into_trancl a b c)
  show ?case
  proof (intro allI impI)
    fix i assume i: "i < length out" "out ! i = c"
    with ok have "set (P c) \<subseteq> set (take i out)" by (auto simp: topo_ok_def)
    with trancl_into_trancl have "b \<in> set (take i out)" by auto
    then obtain k where k: "k < i" "out ! k = b" using i by (auto simp: in_set_conv_nth)
    from k i have "k < length out" by simp
    with trancl_into_trancl.IH k obtain j where j: "j < k" "out ! j = a" by blast
    from j k have "j < i" by simp
    with j show "\<exists>j < i. out ! j = a" by blast
  qed
qed

lemma topo_ok_acyclic:
  assumes ok: "topo_ok tasks P out"
  shows "acyclic {(p, t). t \<in> set out \<and> p \<in> set (P t)}"
proof (rule acyclicI, intro allI notI)
  fix x assume c: "(x, x) \<in> {(p, t). t \<in> set out \<and> p \<in> set (P t)}\<^sup>+"
  then have "x \<in> set out" by (induction rule: trancl.induct) auto
  then obtain i where i: "i < length out" "out ! i = x" by (auto simp: in_set_conv_nth)
  with topo_ok_before [OF ok c] obtain j where j: "j < i" "out ! j = x" by blast
  from ok have "distinct out" by (simp add: topo_ok_def)
  with i j show False by (auto simp: nth_eq_iff_index_eq)
qed

lemma topo_ok_closed:
  "topo_ok tasks P out \<Longrightarrow> set out = set tasks \<Longrightarrow> \<forall>t \<in> set tasks. set (P t) \<subseteq> set tasks"
  by (auto simp: topo_ok_def)

section \<open>Empty input\<close>

text \<open>
  Claim C8, as the specification states it, does not hold of the code: there is no check
  for an empty task list and no empty-input error. On the empty input the sort returns
  the empty order and the forward pass runs on it; the run stops on line 87, where
  \<^verbatim>\<open>max(EF.values())\<close> raises the \<^verbatim>\<open>ValueError\<close> of \<^verbatim>\<open>max\<close> on an empty sequence.
  The very same exception ends the run on a non-empty input, a single task that names a
  predecessor which is no task: the failure does not tell that no task was supplied.
\<close>

theorem empty_input_raises_max_error:
  "topological_sort (tasks_of []) (predecessors_dict []) (successors_dict []) = Inr []
   \<and> forward_pass id [] (predecessors_dict []) (duration_dict []) ([], []) = Inr ([], [])
   \<and> py_max (dict_values ([] :: real dict)) = Inl ValueError
   \<and> compute_cpm id [] = Inl ValueError
   \<and> compute_cpm id [\<lparr>Task = ''A'', Duration = 3, Predecessors = [''X'']\<rparr>]
       = Inl ValueError"
  by code_simp

text \<open>
  Claim C8, amended. When zero tasks are supplied the computation fails with the
  \<^verbatim>\<open>ValueError\<close> that \<^verbatim>\<open>max\<close> raises on the empty \<^verbatim>\<open>EF.values()\<close> (line 87), whatever
  the arithmetic of the durations; no schedule is produced.
\<close>

theorem empty_input_fails: "compute_cpm rnd [] = Inl ValueError"
  by (simp add: compute_cpm_def tasks_of_def duration_dict_def predecessors_dict_def
      successors_dict_def topological_sort_def dict_values_def)

section \<open>Properties of the forward pass\<close>

lemma dom_setitem: "dom (map_of (setitem k v d)) = insert k (dom (map_of d))"
  by (simp add: map_of_setitem)

lemma distinct_setitem: "distinct (map fst d) \<Longrightarrow> distinct (map fst (setitem k v d))"
  by (simp add: setitem_def distinct_update)

lemma forward_pass_result:
  "forward_pass rnd ts pred dur (es0, ef0) = Inr (es, ef) \<Longrightarrow> distinct ts \<Longrightarrow>
   set ts \<inter> dom (map_of ef0) = {} \<Longrightarrow>
   (\<forall>t \<in> set ts. \<exists>ps d.
       map_of pred t = Some ps \<and> map_of dur t = Some d \<and> set ps \<subseteq> dom (map_of ef)
       \<and> map_of es t =
            Some (if ps = [] then 0 else Max ((\<lambda>p. the (map_of ef p)) ` set ps))
       \<and> map_of ef t = Some (rnd (the (map_of es t) + d)))
   \<and> (\<forall>k. k \<notin> set ts \<longrightarrow> map_of es k = map_of es0 k \<and> map_of ef k = map_of ef0 k)"
proof (induction ts arbitrary: es0 ef0)
  case Nil
  then show ?case by simp
next
  case (Cons t ts)
  from Cons.prems(1) obtain ps where ps: "map_of pred t = Some ps"
    by (auto simp: getitem_def split: option.splits)
  from Cons.prems(1) ps obtain start where
    start: "(if ps = [] then Inr 0
             else (case getitems ef0 ps of Inl e \<Rightarrow> Inl e | Inr vs \<Rightarrow> py_max vs)) = Inr start"
    by (auto simp: getitem_def split: sum.splits)
  from Cons.prems(1) ps start obtain d where d: "map_of dur t = Some d"
    by (auto simp: getitem_def split: option.splits)
  let ?es1 = "setitem t start es0" and ?ef1 = "setitem t (rnd (start + d)) ef0"
  from Cons.prems(1) ps start d
  have rec: "forward_pass rnd ts pred dur (?es1, ?ef1) = Inr (es, ef)"
    by (simp add: getitem_def)
  from Cons.prems have dist: "distinct ts" and t_fresh: "t \<notin> set ts"
    and "set ts \<inter> dom (map_of ?ef1) = {}"
    by (auto simp: dom_setitem)
  from Cons.IH [OF rec this(1,3)] have
    IH1: "\<forall>t \<in> set ts. \<exists>ps d.
       map_of pred t = Some ps \<and> map_of dur t = Some d \<and> set ps \<subseteq> dom (map_of ef)
       \<and> map_of es t =
            Some (if ps = [] then 0 else Max ((\<lambda>p. the (map_of ef p)) ` set ps))
       \<and> map_of ef t = Some (rnd (the (map_of es t) + d))"
    and IH2: "\<forall>k. k \<notin> set ts \<longrightarrow> map_of es k = map_of ?es1 k \<and> map_of ef k = map_of ?ef1 k"
    by blast+
  have es_t: "map_of es t = Some start" and ef_t: "map_of ef t = Some (rnd (start + d))"
    using IH2 t_fresh by (simp_all add: map_of_setitem)
  have keep: "map_of ef p = map_of ef0 p" if "p \<in> dom (map_of ef0)" for p
  proof -
    from that Cons.prems(3) have "p \<notin> set (t # ts)" by auto
    with IH2 show ?thesis by (simp add: map_of_setitem)
  qed
  have sub: "set ps \<subseteq> dom (map_of ef0)" if "ps \<noteq> []"
  proof -
    from start that obtain vs where "getitems ef0 ps = Inr vs" by (auto split: sum.splits)
    then show ?thesis by (rule getitems_dom)
  qed
  have start_eq: "start = (if ps = [] then 0 else Max ((\<lambda>p. the (map_of ef p)) ` set ps))"
  proof (cases "ps = []")
    case True
    with start show ?thesis by simp
  next
    case False
    from start False obtain vs where vs: "getitems ef0 ps = Inr vs" and m: "py_max vs = Inr start"
      by (auto split: sum.splits)
    from getitems_values [OF vs] have v: "vs = map (\<lambda>k. the (map_of ef0 k)) ps" .
    with False have "vs \<noteq> []" by simp
    from py_max_Inr [OF this] m have "start = Max (set vs)" by simp
    also have "set vs = (\<lambda>p. the (map_of ef p)) ` set ps"
      using sub [OF False] keep by (auto simp: v image_iff subset_iff) 
    finally show ?thesis using False by simp
  qed
  have head: "\<exists>ps d.
       map_of pred t = Some ps \<and> map_of dur t = Some d \<and> set ps \<subseteq> dom (map_of ef)
       \<and> map_of es t =
            Some (if ps = [] then 0 else Max ((\<lambda>p. the (map_of ef p)) ` set ps))
       \<and> map_of ef t = Some (rnd (the (map_of es t) + d))"
  proof (intro exI conjI)
    show "map_of pred t = Some ps" by (rule ps)
    show "map_of dur t = Some d" by (rule d)
    show "set ps \<subseteq> dom (map_of ef)"
    proof (cases "ps = []")
      case False
      from sub [OF False] keep show ?thesis by (auto simp: dom_def subset_iff)
    qed simp
    show "map_of es t = Some (if ps = [] then 0 else Max ((\<lambda>p. the (map_of ef p)) ` set ps))"
      using es_t start_eq by simp
    show "map_of ef t = Some (rnd (the (map_of es t) + d))" using es_t ef_t by simp
  qed
  have other: "\<forall>k. k \<notin> set (t # ts) \<longrightarrow> map_of es k = map_of es0 k \<and> map_of ef k = map_of ef0 k"
    using IH2 by (simp add: map_of_setitem)
  from head IH1 other show ?case by simp
qed

lemma forward_pass_succeeds:
  "\<forall>t \<in> set ts. \<exists>ps. map_of pred t = Some ps \<and> t \<in> dom (map_of dur) \<Longrightarrow>
   \<forall>pre t post ps. ts = pre @ t # post \<longrightarrow> map_of pred t = Some ps
       \<longrightarrow> set ps \<subseteq> dom (map_of ef0) \<union> set pre \<Longrightarrow>
   \<exists>es ef. forward_pass rnd ts pred dur (es0, ef0) = Inr (es, ef)"
proof (induction ts arbitrary: es0 ef0)
  case Nil
  then show ?case by simp
next
  case (Cons t ts)
  from Cons.prems(1) obtain ps d where ps: "map_of pred t = Some ps"
    and d: "map_of dur t = Some d" by auto
  from Cons.prems(2) [rule_format, of "[]" t ts ps] ps
  have sub: "set ps \<subseteq> dom (map_of ef0)" by simp
  obtain start where
    start: "(if ps = [] then Inr 0
             else (case getitems ef0 ps of Inl e \<Rightarrow> Inl e | Inr vs \<Rightarrow> py_max vs)) = Inr start"
  proof (cases "ps = []")
    case True
    then show ?thesis using that by simp
  next
    case False
    then have "map (\<lambda>k. the (map_of ef0 k)) ps \<noteq> []" by simp
    from py_max_Inr [OF this] False getitems_total [OF sub] show ?thesis
      using that by simp
  qed
  let ?es1 = "setitem t start es0" and ?ef1 = "setitem t (rnd (start + d)) ef0"
  have 1: "\<forall>t \<in> set ts. \<exists>ps. map_of pred t = Some ps \<and> t \<in> dom (map_of dur)"
    using Cons.prems(1) by simp
  have 2: "\<forall>pre x post ps. ts = pre @ x # post \<longrightarrow> map_of pred x = Some ps
       \<longrightarrow> set ps \<subseteq> dom (map_of ?ef1) \<union> set pre"
  proof (intro allI impI)
    fix pre x post qs assume a: "ts = pre @ x # post" "map_of pred x = Some qs"
    then have "t # ts = (t # pre) @ x # post" by simp
    from Cons.prems(2) [rule_format, OF this a(2)]
    show "set qs \<subseteq> dom (map_of ?ef1) \<union> set pre" by (auto simp: dom_setitem)
  qed
  from Cons.IH [OF 1 2, of ?es1] obtain es ef where
    "forward_pass rnd ts pred dur (?es1, ?ef1) = Inr (es, ef)" by blast
  with ps d start show ?case by (simp add: getitem_def)
qed

lemma forward_pass_keys:
  "forward_pass rnd ts pred dur (es0, ef0) = Inr (es, ef) \<Longrightarrow>
   dom (map_of es) = dom (map_of es0) \<union> set ts \<and> dom (map_of ef) = dom (map_of ef0) \<union> set ts
   \<and> (distinct (map fst ef0) \<longrightarrow> distinct (map fst ef))"
proof (induction ts arbitrary: es0 ef0)
  case Nil
  then show ?case by simp
next
  case (Cons t ts)
  from Cons.prems obtain start d where
    "forward_pass rnd ts pred dur (setitem t start es0, setitem t (rnd (start + d)) ef0) = Inr (es, ef)"
    by (auto split: sum.splits)
  from Cons.IH [OF this] show ?case by (auto simp: dom_setitem distinct_setitem)
qed

section \<open>Properties of the backward pass and of the slack\<close>

lemma backward_pass_result:
  "backward_pass rnd ts succ dur pd (ls0, lf0) = Inr (ls, lf) \<Longrightarrow> distinct ts \<Longrightarrow>
   set ts \<inter> dom (map_of ls0) = {} \<Longrightarrow>
   (\<forall>t \<in> set ts. \<exists>d.
       map_of dur t = Some d \<and> set (dd_get succ t) \<subseteq> dom (map_of ls)
       \<and> map_of lf t =
            Some (if dd_get succ t = [] then pd
                  else Min ((\<lambda>s. the (map_of ls s)) ` set (dd_get succ t)))
       \<and> map_of ls t = Some (rnd (the (map_of lf t) - d)))
   \<and> (\<forall>k. k \<notin> set ts \<longrightarrow> map_of ls k = map_of ls0 k \<and> map_of lf k = map_of lf0 k)"
proof (induction ts arbitrary: ls0 lf0)
  case Nil
  then show ?case by simp
next
  case (Cons t ts)
  let ?ss = "dd_get succ t"
  from Cons.prems(1) obtain finish where
    finish: "(if ?ss = [] then Inr pd
              else (case getitems ls0 ?ss of Inl e \<Rightarrow> Inl e | Inr vs \<Rightarrow> py_min vs))
               = Inr finish"
    by (auto split: sum.splits)
  from Cons.prems(1) finish obtain d where d: "map_of dur t = Some d"
    by (auto simp: getitem_def split: option.splits)
  let ?ls1 = "setitem t (rnd (finish - d)) ls0" and ?lf1 = "setitem t finish lf0"
  from Cons.prems(1) finish d
  have rec: "backward_pass rnd ts succ dur pd (?ls1, ?lf1) = Inr (ls, lf)"
    by (simp add: getitem_def)
  from Cons.prems have dist: "distinct ts" and t_fresh: "t \<notin> set ts"
    and "set ts \<inter> dom (map_of ?ls1) = {}"
    by (auto simp: dom_setitem)
  from Cons.IH [OF rec this(1,3)] have
    IH1: "\<forall>t \<in> set ts. \<exists>d.
       map_of dur t = Some d \<and> set (dd_get succ t) \<subseteq> dom (map_of ls)
       \<and> map_of lf t =
            Some (if dd_get succ t = [] then pd
                  else Min ((\<lambda>s. the (map_of ls s)) ` set (dd_get succ t)))
       \<and> map_of ls t = Some (rnd (the (map_of lf t) - d))"
    and IH2: "\<forall>k. k \<notin> set ts \<longrightarrow> map_of ls k = map_of ?ls1 k \<and> map_of lf k = map_of ?lf1 k"
    by blast+
  have lf_t: "map_of lf t = Some finish" and ls_t: "map_of ls t = Some (rnd (finish - d))"
    using IH2 t_fresh by (simp_all add: map_of_setitem)
  have keep: "map_of ls p = map_of ls0 p" if "p \<in> dom (map_of ls0)" for p
  proof -
    from that Cons.prems(3) have "p \<notin> set (t # ts)" by auto
    with IH2 show ?thesis by (simp add: map_of_setitem)
  qed
  have sub: "set ?ss \<subseteq> dom (map_of ls0)" if "?ss \<noteq> []"
  proof -
    from finish that obtain vs where "getitems ls0 ?ss = Inr vs" by (auto split: sum.splits)
    then show ?thesis by (rule getitems_dom)
  qed
  have finish_eq:
    "finish = (if ?ss = [] then pd else Min ((\<lambda>s. the (map_of ls s)) ` set ?ss))"
  proof (cases "?ss = []")
    case True
    with finish show ?thesis by simp
  next
    case False
    from finish False obtain vs where vs: "getitems ls0 ?ss = Inr vs"
      and m: "py_min vs = Inr finish"
      by (auto split: sum.splits)
    from getitems_values [OF vs] have v: "vs = map (\<lambda>k. the (map_of ls0 k)) ?ss" .
    with False have "vs \<noteq> []" by simp
    from py_min_Inr [OF this] m have "finish = Min (set vs)" by simp
    also have "set vs = (\<lambda>s. the (map_of ls s)) ` set ?ss"
      using sub [OF False] keep by (auto simp: v image_iff subset_iff)
    finally show ?thesis using False by simp
  qed
  have head: "\<exists>d.
       map_of dur t = Some d \<and> set ?ss \<subseteq> dom (map_of ls)
       \<and> map_of lf t =
            Some (if ?ss = [] then pd else Min ((\<lambda>s. the (map_of ls s)) ` set ?ss))
       \<and> map_of ls t = Some (rnd (the (map_of lf t) - d))"
  proof (intro exI conjI)
    show "map_of dur t = Some d" by (rule d)
    show "set ?ss \<subseteq> dom (map_of ls)"
    proof (cases "?ss = []")
      case False
      from sub [OF False] keep show ?thesis by (auto simp: dom_def subset_iff)
    qed simp
    show "map_of lf t =
            Some (if ?ss = [] then pd else Min ((\<lambda>s. the (map_of ls s)) ` set ?ss))"
      using lf_t finish_eq by simp
    show "map_of ls t = Some (rnd (the (map_of lf t) - d))" using ls_t lf_t by simp
  qed
  have other: "\<forall>k. k \<notin> set (t # ts) \<longrightarrow> map_of ls k = map_of ls0 k \<and> map_of lf k = map_of lf0 k"
    using IH2 by (simp add: map_of_setitem)
  from head IH1 other show ?case by simp
qed

lemma backward_pass_succeeds:
  "\<forall>t \<in> set ts. t \<in> dom (map_of dur) \<Longrightarrow>
   \<forall>pre t post. ts = pre @ t # post
       \<longrightarrow> set (dd_get succ t) \<subseteq> dom (map_of ls0) \<union> set pre \<Longrightarrow>
   \<exists>ls lf. backward_pass rnd ts succ dur pd (ls0, lf0) = Inr (ls, lf)"
proof (induction ts arbitrary: ls0 lf0)
  case Nil
  then show ?case by simp
next
  case (Cons t ts)
  let ?ss = "dd_get succ t"
  from Cons.prems(1) obtain d where d: "map_of dur t = Some d" by auto
  from Cons.prems(2) [rule_format, of "[]" t ts]
  have sub: "set ?ss \<subseteq> dom (map_of ls0)" by simp
  obtain finish where
    finish: "(if ?ss = [] then Inr pd
              else (case getitems ls0 ?ss of Inl e \<Rightarrow> Inl e | Inr vs \<Rightarrow> py_min vs))
               = Inr finish"
  proof (cases "?ss = []")
    case True
    then show ?thesis using that by simp
  next
    case False
    then have "map (\<lambda>k. the (map_of ls0 k)) ?ss \<noteq> []" by simp
    from py_min_Inr [OF this] False getitems_total [OF sub] show ?thesis
      using that by simp
  qed
  let ?ls1 = "setitem t (rnd (finish - d)) ls0" and ?lf1 = "setitem t finish lf0"
  have 1: "\<forall>t \<in> set ts. t \<in> dom (map_of dur)"
    using Cons.prems(1) by simp
  have 2: "\<forall>pre x post. ts = pre @ x # post
       \<longrightarrow> set (dd_get succ x) \<subseteq> dom (map_of ?ls1) \<union> set pre"
  proof (intro allI impI)
    fix pre x post assume a: "ts = pre @ x # post"
    then have "t # ts = (t # pre) @ x # post" by simp
    from Cons.prems(2) [rule_format, OF this]
    show "set (dd_get succ x) \<subseteq> dom (map_of ?ls1) \<union> set pre" by (auto simp: dom_setitem)
  qed
  from Cons.IH [OF 1 2, of ?lf1] obtain ls lf where
    "backward_pass rnd ts succ dur pd (?ls1, ?lf1) = Inr (ls, lf)" by blast
  with d finish show ?case by (simp add: getitem_def)
qed

lemma backward_pass_keys:
  "backward_pass rnd ts succ dur pd (ls0, lf0) = Inr (ls, lf) \<Longrightarrow>
   dom (map_of ls) = dom (map_of ls0) \<union> set ts \<and> dom (map_of lf) = dom (map_of lf0) \<union> set ts"
proof (induction ts arbitrary: ls0 lf0)
  case Nil
  then show ?case by simp
next
  case (Cons t ts)
  from Cons.prems obtain finish d where
    "backward_pass rnd ts succ dur pd (setitem t (rnd (finish - d)) ls0, setitem t finish lf0)
       = Inr (ls, lf)"
    by (auto split: sum.splits)
  from Cons.IH [OF this] show ?case by (auto simp: dom_setitem)
qed

lemma slack_dict_result:
  "slack_dict rnd ts ls es sl0 = Inr sl \<Longrightarrow> distinct ts \<Longrightarrow>
   (\<forall>t \<in> set ts. \<exists>l s. map_of ls t = Some l \<and> map_of es t = Some s
                        \<and> map_of sl t = Some (rnd (l - s)))
   \<and> (\<forall>k. k \<notin> set ts \<longrightarrow> map_of sl k = map_of sl0 k)"
proof (induction ts arbitrary: sl0)
  case Nil
  then show ?case by simp
next
  case (Cons t ts)
  from Cons.prems(1) obtain l s where l: "map_of ls t = Some l" and s: "map_of es t = Some s"
    by (auto simp: getitem_def split: option.splits)
  with Cons.prems(1) have rec: "slack_dict rnd ts ls es (setitem t (rnd (l - s)) sl0) = Inr sl"
    by (simp add: getitem_def)
  from Cons.prems(2) have "distinct ts" "t \<notin> set ts" by simp_all
  with Cons.IH [OF rec] l s show ?case by (auto simp: map_of_setitem)
qed

lemma slack_dict_succeeds:
  "set ts \<subseteq> dom (map_of ls) \<Longrightarrow> set ts \<subseteq> dom (map_of es) \<Longrightarrow>
   \<exists>sl. slack_dict rnd ts ls es sl0 = Inr sl"
  by (induction ts arbitrary: sl0) (auto simp: getitem_def)

lemma slack_dict_keys:
  "slack_dict rnd ts ls es sl0 = Inr sl \<Longrightarrow> set ts \<subseteq> dom (map_of ls)"
proof (induction ts arbitrary: sl0)
  case Nil
  then show ?case by simp
next
  case (Cons t ts)
  from Cons.prems obtain l s where l: "map_of ls t = Some l"
    and "slack_dict rnd ts ls es (setitem t (rnd (l - s)) sl0) = Inr sl"
    by (auto simp: getitem_def split: option.splits sum.splits)
  from Cons.IH [OF this(2)] l show ?case by auto
qed

section \<open>Selection by greatest key\<close>

text \<open>
  \<open>r\<close> is the first item of \<open>xs\<close> whose key is greatest: the items before it have strictly
  smaller keys, those after it have keys that are not greater.
\<close>

definition is_first_max :: "('a \<Rightarrow> 'k::linorder) \<Rightarrow> 'a list \<Rightarrow> 'a \<Rightarrow> bool" where
  "is_first_max f xs r \<longleftrightarrow>
     (\<exists>pre post. xs = pre @ r # post \<and> (\<forall>y \<in> set pre. f y < f r)
                 \<and> (\<forall>y \<in> set post. f y \<le> f r))"

lemma is_first_max_mem: "is_first_max f xs r \<Longrightarrow> r \<in> set xs"
  by (auto simp: is_first_max_def)

lemma is_first_max_greatest: "is_first_max f xs r \<Longrightarrow> y \<in> set xs \<Longrightarrow> f y \<le> f r"
  by (auto simp: is_first_max_def less_imp_le)

lemma is_first_max_cong:
  assumes "\<forall>y \<in> set xs. f y = g y"
  shows "is_first_max f xs r \<longleftrightarrow> is_first_max g xs r"
proof -
  have "is_first_max f' xs r \<Longrightarrow> \<forall>y \<in> set xs. f' y = g' y \<Longrightarrow> is_first_max g' xs r"
    for f' g' :: "'a \<Rightarrow> 'b"
    unfolding is_first_max_def by (elim exE conjE, intro exI conjI) auto
  from this [of f g] this [of g f] assms show ?thesis by auto
qed

lemma is_first_max_unique:
  assumes "is_first_max f xs r" and "is_first_max f xs r'"
  shows "r = r'"
proof -
  from assms(1) obtain pre post where
    a: "xs = pre @ r # post" "\<forall>y \<in> set pre. f y < f r" "\<forall>y \<in> set post. f y \<le> f r"
    unfolding is_first_max_def by blast
  from assms(2) obtain pre' post' where
    b: "xs = pre' @ r' # post'" "\<forall>y \<in> set pre'. f y < f r'" "\<forall>y \<in> set post'. f y \<le> f r'"
    unfolding is_first_max_def by blast
  from a(1) b(1) have eq: "pre @ r # post = pre' @ r' # post'" by simp
  show ?thesis
  proof (rule ccontr)
    assume ne: "r \<noteq> r'"
    from eq consider us where "pre = pre' @ us" "us @ r # post = r' # post'"
      | us where "pre @ us = pre'" "r # post = us @ r' # post'"
      by (auto simp: append_eq_append_conv2)
    then show False
    proof cases
      case 1
      with ne obtain vs where "us = r' # vs" by (cases us) auto
      with 1 have "r' \<in> set pre" and "r \<in> set post'" by auto
      with a(2) b(3) show False by force
    next
      case 2
      with ne obtain vs where "us = r # vs" by (cases us) auto
      with 2 have "r \<in> set pre'" and "r' \<in> set post" by auto
      with b(2) a(3) show False by force
    qed
  qed
qed

lemma fold_first_max:
  "is_first_max f seen m \<Longrightarrow>
   is_first_max f (seen @ xs) (fold (\<lambda>y m. if f m < f y then y else m) xs m)"
proof (induction xs arbitrary: seen m)
  case Nil
  then show ?case by simp
next
  case (Cons y ys)
  let ?m = "if f m < f y then y else m"
  have "is_first_max f (seen @ [y]) ?m"
  proof (cases "f m < f y")
    case True
    have "\<forall>z \<in> set seen. f z < f y"
      using is_first_max_greatest [OF Cons.prems] True by (auto intro: le_less_trans)
    then have "is_first_max f (seen @ [y]) y"
      unfolding is_first_max_def by (intro exI [of _ seen] exI [of _ "[]"]) simp
    with True show ?thesis by simp
  next
    case False
    from Cons.prems obtain pre post where
      s: "seen = pre @ m # post" "\<forall>z \<in> set pre. f z < f m" "\<forall>z \<in> set post. f z \<le> f m"
      by (auto simp: is_first_max_def)
    with False have "is_first_max f (seen @ [y]) m"
      unfolding is_first_max_def by (intro exI [of _ pre] exI [of _ "post @ [y]"]) auto
    with False show ?thesis by simp
  qed
  from Cons.IH [OF this] show ?case by simp
qed

lemma py_max_key_first_max:
  "xs \<noteq> [] \<Longrightarrow> \<exists>r. py_max_key f xs = Inr r \<and> is_first_max f xs r"
proof (cases xs)
  case Nil
  assume "xs \<noteq> []"
  with Nil show ?thesis by simp
next
  case (Cons x ys)
  have "is_first_max f [x] x"
    unfolding is_first_max_def by (intro exI [of _ "[]"]) simp
  from fold_first_max [OF this, of ys] Cons show ?thesis by simp
qed

section \<open>The best path to each task\<close>

text \<open>
  A path info extended by a task of duration \<open>d\<close> (line 120): durations added, node count
  incremented, the task appended to the path.
\<close>

definition extend_info :: "(real \<Rightarrow> real) \<Rightarrow> path_info \<Rightarrow> real \<Rightarrow> string \<Rightarrow> path_info" where
  "extend_info rnd v d t = (rnd (fst v + d), fst (snd v) + 1, snd (snd v) @ [t])"

lemma best_info_loop_result:
  "best_info_loop rnd ts pred dur bi0 = Inr bi \<Longrightarrow> distinct ts \<Longrightarrow>
   set ts \<inter> dom (map_of bi0) = {} \<Longrightarrow>
   \<forall>pre t post ps. ts = pre @ t # post \<longrightarrow> map_of pred t = Some ps
       \<longrightarrow> set ps \<subseteq> dom (map_of bi0) \<union> set pre \<Longrightarrow>
   (\<forall>t \<in> set ts. \<exists>ps d.
       map_of pred t = Some ps \<and> map_of dur t = Some d
       \<and> (if ps = [] then map_of bi t = Some (d, 1, [t])
          else \<exists>prev. is_first_max (\<lambda>p. info_key (info_get bi p)) ps prev
                 \<and> map_of bi t = Some (extend_info rnd (info_get bi prev) d t)))
   \<and> (\<forall>k. k \<notin> set ts \<longrightarrow> map_of bi k = map_of bi0 k)"
proof (induction ts arbitrary: bi0)
  case Nil
  then show ?case by simp
next
  case (Cons t ts)
  from Cons.prems(1) obtain d where d: "map_of dur t = Some d"
    by (auto simp: getitem_def split: option.splits)
  from Cons.prems(1) d obtain ps where ps: "map_of pred t = Some ps"
    by (auto simp: getitem_def split: option.splits)
  from Cons.prems(4) [rule_format, of "[]" t ts ps] ps
  have sub: "set ps \<subseteq> dom (map_of bi0)" by simp
  obtain v where v: "(if ps = [] then v = (d, 1, [t])
       else \<exists>prev. is_first_max (\<lambda>p. info_key (info_get bi0 p)) ps prev
              \<and> v = extend_info rnd (info_get bi0 prev) d t)"
    and rec: "best_info_loop rnd ts pred dur (setitem t v bi0) = Inr bi"
  proof (cases "ps = []")
    case True
    with Cons.prems(1) d ps that [of "(d, 1, [t])"] show ?thesis by (simp add: getitem_def)
  next
    case False
    from py_max_key_first_max [OF False, of "\<lambda>p. info_key (info_get bi0 p)"]
    obtain prev where p: "py_max_key (\<lambda>p. info_key (info_get bi0 p)) ps = Inr prev"
      and fm: "is_first_max (\<lambda>p. info_key (info_get bi0 p)) ps prev" by blast
    obtain a b c where abc: "info_get bi0 prev = (a, b, c)" by (cases "info_get bi0 prev")
    with Cons.prems(1) d ps False p
    have "best_info_loop rnd ts pred dur (setitem t (extend_info rnd (info_get bi0 prev) d t) bi0)
            = Inr bi"
      by (simp add: getitem_def extend_info_def)
    with fm False that [of "extend_info rnd (info_get bi0 prev) d t"] show ?thesis by auto
  qed
  let ?bi1 = "setitem t v bi0"
  from Cons.prems have dist: "distinct ts" and t_fresh: "t \<notin> set ts"
    and fresh: "set ts \<inter> dom (map_of ?bi1) = {}"
    by (auto simp: dom_setitem)
  have ord: "\<forall>pre x post qs. ts = pre @ x # post \<longrightarrow> map_of pred x = Some qs
       \<longrightarrow> set qs \<subseteq> dom (map_of ?bi1) \<union> set pre"
  proof (intro allI impI)
    fix pre x post qs assume a: "ts = pre @ x # post" "map_of pred x = Some qs"
    then have "t # ts = (t # pre) @ x # post" by simp
    from Cons.prems(4) [rule_format, OF this a(2)]
    show "set qs \<subseteq> dom (map_of ?bi1) \<union> set pre" by (auto simp: dom_setitem)
  qed
  from Cons.IH [OF rec dist fresh ord] have
    IH1: "\<forall>t \<in> set ts. \<exists>ps d.
       map_of pred t = Some ps \<and> map_of dur t = Some d
       \<and> (if ps = [] then map_of bi t = Some (d, 1, [t])
          else \<exists>prev. is_first_max (\<lambda>p. info_key (info_get bi p)) ps prev
                 \<and> map_of bi t = Some (extend_info rnd (info_get bi prev) d t))"
    and IH2: "\<forall>k. k \<notin> set ts \<longrightarrow> map_of bi k = map_of ?bi1 k"
    by blast+
  have bi_t: "map_of bi t = Some v" using IH2 t_fresh by (simp add: map_of_setitem)
  have keep: "info_get bi p = info_get bi0 p" if "p \<in> set ps" for p
  proof -
    from that sub Cons.prems(3) have "p \<notin> set (t # ts)" by auto
    with IH2 show ?thesis by (simp add: map_of_setitem info_get_def)
  qed
  have head: "\<exists>ps d.
       map_of pred t = Some ps \<and> map_of dur t = Some d
       \<and> (if ps = [] then map_of bi t = Some (d, 1, [t])
          else \<exists>prev. is_first_max (\<lambda>p. info_key (info_get bi p)) ps prev
                 \<and> map_of bi t = Some (extend_info rnd (info_get bi prev) d t))"
  proof (cases "ps = []")
    case True
    with v ps d bi_t show ?thesis by simp
  next
    case False
    with v obtain prev where fm: "is_first_max (\<lambda>p. info_key (info_get bi0 p)) ps prev"
      and veq: "v = extend_info rnd (info_get bi0 prev) d t" by auto
    have "is_first_max (\<lambda>p. info_key (info_get bi p)) ps prev"
      using fm is_first_max_cong [of ps "\<lambda>p. info_key (info_get bi p)"
          "\<lambda>p. info_key (info_get bi0 p)" prev] keep by simp
    moreover have "map_of bi t = Some (extend_info rnd (info_get bi prev) d t)"
      using bi_t veq keep [OF is_first_max_mem [OF fm]] by simp
    ultimately show ?thesis using ps d False by auto
  qed
  have other: "\<forall>k. k \<notin> set (t # ts) \<longrightarrow> map_of bi k = map_of bi0 k"
    using IH2 by (simp add: map_of_setitem)
  from head IH1 other show ?case by simp
qed

lemma best_info_loop_succeeds:
  "\<forall>t \<in> set ts. t \<in> dom (map_of pred) \<and> t \<in> dom (map_of dur) \<Longrightarrow>
   \<exists>bi. best_info_loop rnd ts pred dur bi0 = Inr bi"
proof (induction ts arbitrary: bi0)
  case Nil
  then show ?case by simp
next
  case (Cons t ts)
  from Cons.prems obtain ps d where ps: "map_of pred t = Some ps"
    and d: "map_of dur t = Some d" by auto
  from Cons.prems have rest: "\<forall>t \<in> set ts. t \<in> dom (map_of pred) \<and> t \<in> dom (map_of dur)"
    by simp
  show ?case
  proof (cases "ps = []")
    case True
    with Cons.IH [OF rest, of "setitem t (d, 1, [t]) bi0"] ps d show ?thesis
      by (simp add: getitem_def)
  next
    case False
    from py_max_key_first_max [OF False, of "\<lambda>p. info_key (info_get bi0 p)"]
    obtain prev where p: "py_max_key (\<lambda>p. info_key (info_get bi0 p)) ps = Inr prev" by blast
    obtain a b c where abc: "info_get bi0 prev = (a, b, c)" by (cases "info_get bi0 prev")
    from Cons.IH [OF rest, of "setitem t (rnd (a + d), b + 1, c @ [t]) bi0"] ps d False p abc
    show ?thesis by (simp add: getitem_def)
  qed
qed

section \<open>Choice among the terminal tasks\<close>

lemma select_path_keep:
  "\<forall>t \<in> set ts. \<not> bt < info_key (info_get bi t) \<Longrightarrow> select_path ts bi (bt, cp) = (bt, cp)"
proof (induction ts)
  case Nil
  then show ?case by simp
next
  case (Cons t ts)
  obtain a b c where abc: "info_get bi t = (a, b, c)" by (cases "info_get bi t")
  with Cons show ?case by (simp add: info_key_def)
qed

lemma select_path_first_max:
  "is_first_max (\<lambda>t. info_key (info_get bi t)) ts r \<Longrightarrow> bt < info_key (info_get bi r) \<Longrightarrow>
   select_path ts bi (bt, cp) = (info_key (info_get bi r), snd (snd (info_get bi r)))"
proof (induction ts arbitrary: bt cp)
  case Nil
  then show ?case by (simp add: is_first_max_def)
next
  case (Cons t ts)
  let ?k = "\<lambda>t. info_key (info_get bi t)"
  obtain a b c where abc: "info_get bi t = (a, b, c)" by (cases "info_get bi t")
  then have kt: "?k t = (a, b)" by (simp add: info_key_def)
  from Cons.prems(1) obtain pre post where
    s: "t # ts = pre @ r # post" "\<forall>y \<in> set pre. ?k y < ?k r" "\<forall>y \<in> set post. ?k y \<le> ?k r"
    by (auto simp: is_first_max_def)
  show ?case
  proof (cases pre)
    case Nil
    with s have [simp]: "t = r" "ts = post" by simp_all
    from s(3) have "\<forall>y \<in> set ts. \<not> ?k r < ?k y" by (auto simp: not_less)
    from select_path_keep [OF this] Cons.prems(2) abc kt show ?thesis
      by (simp add: info_key_def)
  next
    case (Cons p pre')
    with s have [simp]: "p = t" and ts: "ts = pre' @ r # post" by simp_all
    from s(2) Cons have lt: "?k t < ?k r" and "\<forall>y \<in> set pre'. ?k y < ?k r" by simp_all
    with ts s(3) have fm: "is_first_max ?k ts r" by (auto simp: is_first_max_def)
    show ?thesis
    proof (cases "bt < (a, b)")
      case True
      with Cons.IH [OF fm, of "(a, b)" c] lt abc kt show ?thesis by simp
    next
      case False
      with Cons.IH [OF fm Cons.prems(2), of cp] abc show ?thesis by simp
    qed
  qed
qed

section \<open>The run on a valid activity network\<close>

text \<open>
  A valid activity network in the sense of the data model: at least one task, unique task
  identifiers, every referenced predecessor exists, no cycle.
\<close>

definition valid_dag :: "task_row list \<Rightarrow> bool" where
  "valid_dag rows \<longleftrightarrow>
     rows \<noteq> [] \<and> distinct (tasks_of rows) \<and> refs_exist rows \<and> acyclic (edges rows)"

text \<open>The value stored under a key that is present.\<close>

definition entry :: "'v dict \<Rightarrow> string \<Rightarrow> 'v" where
  "entry d k = the (map_of d k)"

text \<open>
  What the run returns on a valid network: the order covers all tasks, every dictionary
  has exactly the tasks as keys, and the entries satisfy the recurrences of the passes
  and of the dynamic program.
\<close>

definition schedule_ok :: "(real \<Rightarrow> real) \<Rightarrow> task_row list \<Rightarrow> schedule \<Rightarrow> bool" where
  "schedule_ok rnd rows s \<longleftrightarrow>
     topo_ok (tasks_of rows) (preds_of rows) (topo_order s)
     \<and> set (topo_order s) = set (tasks_of rows)
     \<and> dom (map_of (ES s)) = set (tasks_of rows)
     \<and> dom (map_of (EF s)) = set (tasks_of rows)
     \<and> dom (map_of (LS s)) = set (tasks_of rows)
     \<and> dom (map_of (LF s)) = set (tasks_of rows)
     \<and> dom (map_of (slack s)) = set (tasks_of rows)
     \<and> dom (map_of (best_info s)) = set (tasks_of rows)
     \<and> (\<forall>t \<in> set (tasks_of rows).
           entry (ES s) t =
             (if preds_of rows t = [] then 0 else Max (entry (EF s) ` set (preds_of rows t)))
           \<and> entry (EF s) t = rnd (entry (ES s) t + dur_of rows t))
     \<and> project_duration s = Max (entry (EF s) ` set (tasks_of rows))
     \<and> (\<forall>t \<in> set (tasks_of rows).
           entry (LF s) t =
             (if succs_of rows t = [] then project_duration s
              else Min (entry (LS s) ` set (succs_of rows t)))
           \<and> entry (LS s) t = rnd (entry (LF s) t - dur_of rows t))
     \<and> (\<forall>t \<in> set (tasks_of rows). entry (slack s) t = rnd (entry (LS s) t - entry (ES s) t))
     \<and> (\<forall>t \<in> set (tasks_of rows).
           if preds_of rows t = [] then info_get (best_info s) t = (dur_of rows t, 1, [t])
           else \<exists>prev. is_first_max (\<lambda>p. info_key (info_get (best_info s) p))
                          (preds_of rows t) prev
                  \<and> info_get (best_info s) t =
                      extend_info rnd (info_get (best_info s) prev) (dur_of rows t) t)
     \<and> critical_path s =
         snd (select_path (filter (\<lambda>t. succs_of rows t = []) (tasks_of rows)) (best_info s)
                ((0, 0), []))"

lemma topo_ok_split:
  assumes "topo_ok tasks P out" and "out = pre @ t # post"
  shows "set (P t) \<subseteq> set pre"
proof -
  from assms have "length pre < length out" "out ! length pre = t" "take (length pre) out = pre"
    by simp_all
  with assms(1) show ?thesis unfolding topo_ok_def by metis
qed

lemma topo_ok_rev_split:
  assumes ok: "topo_ok tasks P out" and full: "set out = set tasks"
    and dual: "\<forall>p s. s \<in> set (S p) \<longleftrightarrow> s \<in> set tasks \<and> p \<in> set (P s)"
    and split: "rev out = pre @ t # post"
  shows "set (S t) \<subseteq> set pre"
proof
  fix s assume "s \<in> set (S t)"
  with dual have s: "s \<in> set tasks" "t \<in> set (P s)" by auto
  from split have out: "out = rev post @ t # rev pre"
    by (metis rev_append rev.simps(2) rev_rev_ident append_assoc append_Cons append_Nil)
  from ok have dist: "distinct out" by (simp add: topo_ok_def)
  from s full have "s \<in> set out" by simp
  with out consider "s \<in> set post" | "s = t" | "s \<in> set pre" by auto
  then show "s \<in> set pre"
  proof cases
    case 1
    then obtain a b where "rev post = a @ s # b" by (metis in_set_conv_decomp set_rev)
    with out have "out = a @ s # (b @ t # rev pre)" by simp
    from topo_ok_split [OF ok this] s have "t \<in> set a" by auto
    with dist \<open>out = a @ s # (b @ t # rev pre)\<close> show ?thesis by auto
  next
    case 2
    with topo_ok_split [OF ok out] s have "t \<in> set (rev post)" by auto
    with dist out show ?thesis by auto
  next
    case 3
    then show ?thesis .
  qed
qed

lemma mem_succs_of:
  "distinct (tasks_of rows) \<Longrightarrow>
   s \<in> set (succs_of rows p) \<longleftrightarrow> s \<in> set (tasks_of rows) \<and> p \<in> set (preds_of rows s)"
proof -
  assume d: "distinct (tasks_of rows)"
  have "s \<in> set (succs_of rows p) \<longleftrightarrow> p \<in> set (preds_of rows s)"
    using succs_preds_dual [OF d, of p s] count_list_pos [of "succs_of rows p" s]
      count_list_pos [of "preds_of rows s" p] by simp
  moreover have "s \<in> set (tasks_of rows)" if "p \<in> set (preds_of rows s)"
  proof (rule ccontr)
    assume "s \<notin> set (tasks_of rows)"
    then have "preds_of rows s = []" by (rule preds_of_outside)
    with that show False by simp
  qed
  ultimately show ?thesis by auto
qed

lemma values_entry:
  assumes "distinct (map fst d)"
  shows "set (dict_values d) = entry d ` dom (map_of d)"
proof -
  have "set (dict_values d) = snd ` set d" by (simp add: dict_values_def)
  also have "\<dots> = ran (map_of d)" using assms by (simp add: ran_distinct)
  also have "\<dots> = entry d ` dom (map_of d)"
    by (auto simp: ran_def dom_def entry_def image_iff) force
  finally show ?thesis .
qed

lemma compute_cpm_valid:
  assumes v: "valid_dag rows"
  shows "\<exists>s. compute_cpm rnd rows = Inr s \<and> schedule_ok rnd rows s"
proof -
  let ?T = "tasks_of rows" and ?P = "preds_of rows" and ?S = "succs_of rows"
    and ?D = "dur_of rows"
  let ?pred = "predecessors_dict rows" and ?succ = "successors_dict rows"
    and ?dur = "duration_dict rows"
  from v have dist: "distinct ?T" and refs: "refs_exist rows" and acyc: "acyclic (edges rows)"
    and ne: "rows \<noteq> []"
    by (simp_all add: valid_dag_def)
  have pred_map: "map_of ?pred t = (if t \<in> set ?T then Some (?P t) else None)" for t
    by (rule map_of_predecessors_dict [OF dist])
  have dur_map: "map_of ?dur t = (if t \<in> set ?T then Some (?D t) else None)" for t
    by (rule map_of_duration_dict [OF dist])
  have succ_get: "dd_get ?succ t = ?S t" for t by (rule dd_get_successors_dict)
  from topological_sort_ok [OF dist] obtain topo where
    topo: "topological_sort ?T ?pred ?succ = Inr topo" and ok: "topo_ok ?T ?P topo" by blast
  have closed: "\<forall>t \<in> set ?T. set (?P t) \<subseteq> set ?T"
    using refs refs_exist_preds [OF dist] by simp
  have "{(p, t). t \<in> set ?T \<and> p \<in> set (?P t)} = edges rows"
    using edges_preds [OF dist] by auto
  with acyc have "acyclic {(p, t). t \<in> set ?T \<and> p \<in> set (?P t)}" by simp
  from topo_ok_complete [OF ok closed this] have full: "set topo = set ?T" .
  from ok have dtopo: "distinct topo" by (simp add: topo_ok_def)
  from ne have T_ne: "set ?T \<noteq> {}" by (simp add: tasks_of_def)

  \<comment> \<open>forward pass\<close>
  have f1: "\<forall>t \<in> set topo. \<exists>ps. map_of ?pred t = Some ps \<and> t \<in> dom (map_of ?dur)"
    using full by (simp add: pred_map dur_map dom_def)
  have f2: "\<forall>pre t post ps. topo = pre @ t # post \<longrightarrow> map_of ?pred t = Some ps
              \<longrightarrow> set ps \<subseteq> dom (map_of []) \<union> set pre"
  proof (intro allI impI)
    fix pre t post ps assume a: "topo = pre @ t # post" "map_of ?pred t = Some ps"
    then have "t \<in> set ?T" using full by auto
    with a(2) have "ps = ?P t" by (simp add: pred_map)
    with topo_ok_split [OF ok a(1)] show "set ps \<subseteq> dom (map_of []) \<union> set pre" by simp
  qed
  from forward_pass_succeeds [OF f1 f2] obtain es ef where
    fw: "forward_pass rnd topo ?pred ?dur ([], []) = Inr (es, ef)" by blast
  from forward_pass_keys [OF fw] full have dom_es: "dom (map_of es) = set ?T"
    and dom_ef: "dom (map_of ef) = set ?T" and dist_ef: "distinct (map fst ef)"
    by simp_all
  from forward_pass_result [OF fw dtopo] have fr:
    "\<forall>t \<in> set topo. \<exists>ps d.
       map_of ?pred t = Some ps \<and> map_of ?dur t = Some d \<and> set ps \<subseteq> dom (map_of ef)
       \<and> map_of es t =
            Some (if ps = [] then 0 else Max ((\<lambda>p. the (map_of ef p)) ` set ps))
       \<and> map_of ef t = Some (rnd (the (map_of es t) + d))"
    by simp
  have c_fw: "\<forall>t \<in> set ?T.
      entry es t = (if ?P t = [] then 0 else Max (entry ef ` set (?P t)))
      \<and> entry ef t = rnd (entry es t + ?D t)"
  proof
    fix t assume t: "t \<in> set ?T"
    with fr full obtain ps d where
      "map_of ?pred t = Some ps" "map_of ?dur t = Some d"
      and e: "map_of es t = Some (if ps = [] then 0 else Max ((\<lambda>p. the (map_of ef p)) ` set ps))"
        "map_of ef t = Some (rnd (the (map_of es t) + d))"
      by blast
    with t have "ps = ?P t" "d = ?D t" by (simp_all add: pred_map dur_map)
    moreover have "(\<lambda>p. the (map_of ef p)) = entry ef" by (simp add: entry_def fun_eq_iff)
    ultimately show "entry es t = (if ?P t = [] then 0 else Max (entry ef ` set (?P t)))
      \<and> entry ef t = rnd (entry es t + ?D t)"
      using e by (simp add: entry_def)
  qed
  have vals: "set (dict_values ef) = entry ef ` set ?T"
    using values_entry [OF dist_ef] dom_ef by simp
  with T_ne have "dict_values ef \<noteq> []" by auto
  from py_max_Inr [OF this] vals
  have pd: "py_max (dict_values ef) = Inr (Max (entry ef ` set ?T))" by simp
  let ?pd = "Max (entry ef ` set ?T)"

  \<comment> \<open>backward pass\<close>
  have dual: "\<forall>p s. s \<in> set (?S p) \<longleftrightarrow> s \<in> set ?T \<and> p \<in> set (?P s)"
    using mem_succs_of [OF dist] by simp
  have b1: "\<forall>t \<in> set (rev topo). t \<in> dom (map_of ?dur)"
    using full by (simp add: dur_map dom_def)
  have b2: "\<forall>pre t post. rev topo = pre @ t # post
              \<longrightarrow> set (dd_get ?succ t) \<subseteq> dom (map_of []) \<union> set pre"
  proof (intro allI impI)
    fix pre t post assume "rev topo = pre @ t # post"
    from topo_ok_rev_split [OF ok full dual this]
    show "set (dd_get ?succ t) \<subseteq> dom (map_of []) \<union> set pre" by (simp add: succ_get)
  qed
  from backward_pass_succeeds [OF b1 b2] obtain ls lf where
    bw: "backward_pass rnd (rev topo) ?succ ?dur ?pd ([], []) = Inr (ls, lf)" by blast
  from backward_pass_keys [OF bw] full have dom_ls: "dom (map_of ls) = set ?T"
    and dom_lf: "dom (map_of lf) = set ?T"
    by simp_all
  from dtopo have "distinct (rev topo)" by simp
  from backward_pass_result [OF bw this] have br:
    "\<forall>t \<in> set topo. \<exists>d.
       map_of ?dur t = Some d \<and> set (dd_get ?succ t) \<subseteq> dom (map_of ls)
       \<and> map_of lf t =
            Some (if dd_get ?succ t = [] then ?pd
                  else Min ((\<lambda>s. the (map_of ls s)) ` set (dd_get ?succ t)))
       \<and> map_of ls t = Some (rnd (the (map_of lf t) - d))"
    by simp
  have c_bw: "\<forall>t \<in> set ?T.
      entry lf t = (if ?S t = [] then ?pd else Min (entry ls ` set (?S t)))
      \<and> entry ls t = rnd (entry lf t - ?D t)"
  proof
    fix t assume t: "t \<in> set ?T"
    with br full obtain d where
      "map_of ?dur t = Some d"
      and e: "map_of lf t =
            Some (if dd_get ?succ t = [] then ?pd
                  else Min ((\<lambda>s. the (map_of ls s)) ` set (dd_get ?succ t)))"
        "map_of ls t = Some (rnd (the (map_of lf t) - d))"
      by blast
    with t have "d = ?D t" by (simp add: dur_map)
    moreover have "(\<lambda>p. the (map_of ls p)) = entry ls" by (simp add: entry_def fun_eq_iff)
    ultimately show "entry lf t = (if ?S t = [] then ?pd else Min (entry ls ` set (?S t)))
      \<and> entry ls t = rnd (entry lf t - ?D t)"
      using e by (simp add: entry_def succ_get)
  qed

  \<comment> \<open>slack\<close>
  from slack_dict_succeeds [of ?T ls es rnd "[]"] dom_ls dom_es obtain sl where
    sl: "slack_dict rnd ?T ls es [] = Inr sl" by auto
  from slack_dict_result [OF sl dist] have sr:
    "\<forall>t \<in> set ?T. \<exists>l s. map_of ls t = Some l \<and> map_of es t = Some s
                        \<and> map_of sl t = Some (rnd (l - s))"
    and sr2: "\<forall>k. k \<notin> set ?T \<longrightarrow> map_of sl k = None"
    by simp_all
  have dom_sl: "dom (map_of sl) = set ?T"
  proof
    show "dom (map_of sl) \<subseteq> set ?T" using sr2 by (auto simp: dom_def)
    show "set ?T \<subseteq> dom (map_of sl)" using sr by (auto simp: dom_def)
  qed
  have c_sl: "\<forall>t \<in> set ?T. entry sl t = rnd (entry ls t - entry es t)"
  proof
    fix t assume "t \<in> set ?T"
    with sr obtain l s where "map_of ls t = Some l" "map_of es t = Some s"
      "map_of sl t = Some (rnd (l - s))" by blast
    then show "entry sl t = rnd (entry ls t - entry es t)" by (simp add: entry_def)
  qed

  \<comment> \<open>best paths\<close>
  have i1: "\<forall>t \<in> set topo. t \<in> dom (map_of ?pred) \<and> t \<in> dom (map_of ?dur)"
    using full by (simp add: pred_map dur_map dom_def)
  from best_info_loop_succeeds [OF i1] obtain bi where
    bi: "best_info_loop rnd topo ?pred ?dur [] = Inr bi" by blast
  have "set topo \<inter> dom (map_of []) = {}" by simp
  from best_info_loop_result [OF bi dtopo this f2] have ir:
    "\<forall>t \<in> set topo. \<exists>ps d.
       map_of ?pred t = Some ps \<and> map_of ?dur t = Some d
       \<and> (if ps = [] then map_of bi t = Some (d, 1, [t])
          else \<exists>prev. is_first_max (\<lambda>p. info_key (info_get bi p)) ps prev
                 \<and> map_of bi t = Some (extend_info rnd (info_get bi prev) d t))"
    and ir2: "\<forall>k. k \<notin> set topo \<longrightarrow> map_of bi k = None"
    by simp_all
  have dom_bi: "dom (map_of bi) = set ?T"
  proof
    show "dom (map_of bi) \<subseteq> set ?T" using ir2 full by (auto simp: dom_def)
    show "set ?T \<subseteq> dom (map_of bi)"
    proof
      fix t assume "t \<in> set ?T"
      with ir full obtain ps d where
        "if ps = [] then map_of bi t = Some (d, 1, [t])
          else \<exists>prev. is_first_max (\<lambda>p. info_key (info_get bi p)) ps prev
                 \<and> map_of bi t = Some (extend_info rnd (info_get bi prev) d t)"
        by blast
      then show "t \<in> dom (map_of bi)" by (cases "ps = []") auto
    qed
  qed
  have c_bi: "\<forall>t \<in> set ?T.
      if ?P t = [] then info_get bi t = (?D t, 1, [t])
      else \<exists>prev. is_first_max (\<lambda>p. info_key (info_get bi p)) (?P t) prev
             \<and> info_get bi t = extend_info rnd (info_get bi prev) (?D t) t"
  proof
    fix t assume t: "t \<in> set ?T"
    with ir full obtain ps d where
      "map_of ?pred t = Some ps" "map_of ?dur t = Some d"
      and e: "if ps = [] then map_of bi t = Some (d, 1, [t])
          else \<exists>prev. is_first_max (\<lambda>p. info_key (info_get bi p)) ps prev
                 \<and> map_of bi t = Some (extend_info rnd (info_get bi prev) d t)"
      by blast
    with t have [simp]: "ps = ?P t" "d = ?D t" by (simp_all add: pred_map dur_map)
    show "if ?P t = [] then info_get bi t = (?D t, 1, [t])
      else \<exists>prev. is_first_max (\<lambda>p. info_key (info_get bi p)) (?P t) prev
             \<and> info_get bi t = extend_info rnd (info_get bi prev) (?D t) t"
    proof (cases "?P t = []")
      case True
      with e show ?thesis by (simp add: info_get_def)
    next
      case False
      with e obtain prev where "is_first_max (\<lambda>p. info_key (info_get bi p)) (?P t) prev"
        "map_of bi t = Some (extend_info rnd (info_get bi prev) (?D t) t)" by auto
      then have "is_first_max (\<lambda>p. info_key (info_get bi p)) (?P t) prev
        \<and> info_get bi t = extend_info rnd (info_get bi prev) (?D t) t"
        by (simp add: info_get_def)
      with False show ?thesis by auto
    qed
  qed

  \<comment> \<open>the result\<close>
  have ends: "end_tasks ?T ?succ = filter (\<lambda>t. ?S t = []) ?T"
    by (simp add: end_tasks_def succ_get)
  let ?cp = "snd (select_path (filter (\<lambda>t. ?S t = []) ?T) bi ((0, 0), []))"
  let ?s = "\<lparr> topo_order = topo, ES = es, EF = ef, project_duration = ?pd,
              LS = ls, LF = lf, slack = sl, best_info = bi, critical_path = ?cp \<rparr>"
  have run: "compute_cpm rnd rows = Inr ?s"
    by (simp add: compute_cpm_def Let_def topo fw pd bw sl bi ends)
  have "schedule_ok rnd rows ?s"
    unfolding schedule_ok_def schedule.select_convs
    by (intro conjI ok full dom_es dom_ef dom_ls dom_lf dom_sl dom_bi c_fw c_bw c_sl c_bi refl)
  with run show ?thesis by blast
qed

section \<open>What a successful run went through\<close>

lemma compute_cpm_Inr:
  assumes "compute_cpm rnd rows = Inr s"
  shows "topological_sort (tasks_of rows) (predecessors_dict rows) (successors_dict rows)
           = Inr (topo_order s)"
    and "forward_pass rnd (topo_order s) (predecessors_dict rows) (duration_dict rows) ([], [])
           = Inr (ES s, EF s)"
    and "py_max (dict_values (EF s)) = Inr (project_duration s)"
    and "backward_pass rnd (rev (topo_order s)) (successors_dict rows) (duration_dict rows)
           (project_duration s) ([], []) = Inr (LS s, LF s)"
    and "slack_dict rnd (tasks_of rows) (LS s) (ES s) [] = Inr (slack s)"
    and "best_info_loop rnd (topo_order s) (predecessors_dict rows) (duration_dict rows) []
           = Inr (best_info s)"
    and "critical_path s =
           snd (select_path (end_tasks (tasks_of rows) (successors_dict rows)) (best_info s)
                  ((0, 0), []))"
  using assms unfolding compute_cpm_def Let_def
  by (auto split: sum.splits prod.splits)

lemma valid_dag_unique_run:
  "valid_dag rows \<Longrightarrow> compute_cpm rnd rows = Inr s \<Longrightarrow> schedule_ok rnd rows s"
  using compute_cpm_valid [of rows rnd] by auto

section \<open>Order of processing\<close>

lemma keys_setitem_fresh:
  "k \<notin> fst ` set d \<Longrightarrow> map fst (setitem k v d) = map fst d @ [k]"
  unfolding setitem_def by (induction d) auto

lemma forward_pass_order:
  "forward_pass rnd ts pred dur (es0, ef0) = Inr (es, ef) \<Longrightarrow> distinct ts \<Longrightarrow>
   set ts \<inter> fst ` set es0 = {} \<Longrightarrow> set ts \<inter> fst ` set ef0 = {} \<Longrightarrow>
   map fst es = map fst es0 @ ts \<and> map fst ef = map fst ef0 @ ts"
proof (induction ts arbitrary: es0 ef0)
  case Nil
  then show ?case by simp
next
  case (Cons t ts)
  from Cons.prems(1) obtain start d where
    rec: "forward_pass rnd ts pred dur (setitem t start es0, setitem t (rnd (start + d)) ef0)
            = Inr (es, ef)"
    by (auto split: sum.splits)
  from Cons.prems have t: "t \<notin> fst ` set es0" "t \<notin> fst ` set ef0" by auto
  have k: "map fst (setitem t start es0) = map fst es0 @ [t]"
    "map fst (setitem t (rnd (start + d)) ef0) = map fst ef0 @ [t]"
    using t by (simp_all add: keys_setitem_fresh)
  have "set ts \<inter> fst ` set (setitem t start es0) = {}"
    "set ts \<inter> fst ` set (setitem t (rnd (start + d)) ef0) = {}"
    using Cons.prems k by (auto simp flip: set_map)
  from Cons.IH [OF rec _ this] Cons.prems(2) k show ?case by simp
qed

lemma backward_pass_order:
  "backward_pass rnd ts succ dur pd (ls0, lf0) = Inr (ls, lf) \<Longrightarrow> distinct ts \<Longrightarrow>
   set ts \<inter> fst ` set ls0 = {} \<Longrightarrow> set ts \<inter> fst ` set lf0 = {} \<Longrightarrow>
   map fst ls = map fst ls0 @ ts \<and> map fst lf = map fst lf0 @ ts"
proof (induction ts arbitrary: ls0 lf0)
  case Nil
  then show ?case by simp
next
  case (Cons t ts)
  from Cons.prems(1) obtain finish d where
    rec: "backward_pass rnd ts succ dur pd (setitem t (rnd (finish - d)) ls0, setitem t finish lf0)
            = Inr (ls, lf)"
    by (auto split: sum.splits)
  from Cons.prems have t: "t \<notin> fst ` set ls0" "t \<notin> fst ` set lf0" by auto
  have k: "map fst (setitem t (rnd (finish - d)) ls0) = map fst ls0 @ [t]"
    "map fst (setitem t finish lf0) = map fst lf0 @ [t]"
    using t by (simp_all add: keys_setitem_fresh)
  have "set ts \<inter> fst ` set (setitem t (rnd (finish - d)) ls0) = {}"
    "set ts \<inter> fst ` set (setitem t finish lf0) = {}"
    using Cons.prems k by (auto simp flip: set_map)
  from Cons.IH [OF rec _ this] Cons.prems(2) k show ?case by simp
qed

section \<open>Kahn's algorithm as the specification words it\<close>

text \<open>
  The specification's wording of section 4.1, on an in-degree function rather than a
  dictionary: for each successor of the dequeued task, decrement its in-degree and
  enqueue it the moment it reaches 0.
\<close>

fun decrement_spec ::
  "string list \<Rightarrow> (string \<Rightarrow> int) \<times> string list \<Rightarrow> (string \<Rightarrow> int) \<times> string list"
where
  "decrement_spec [] (deg, queue) = (deg, queue)"
| "decrement_spec (s # ss) (deg, queue) =
     decrement_spec ss (deg(s := deg s - 1), if deg s - 1 = 0 then queue @ [s] else queue)"

text \<open>
  Repeatedly dequeue a task from the front of the queue, append it to the order, and
  treat its successors; the run ends when the queue is empty.
\<close>

inductive kahn_spec ::
  "(string \<Rightarrow> string list) \<Rightarrow> string list \<Rightarrow> (string \<Rightarrow> int) \<Rightarrow> string list
     \<Rightarrow> string list \<Rightarrow> bool"
  for S :: "string \<Rightarrow> string list"
where
  finished: "kahn_spec S [] deg order order"
| dequeue: "decrement_spec (S node) (deg, queue) = (deg', queue') \<Longrightarrow>
            kahn_spec S queue' deg' (order @ [node]) out \<Longrightarrow>
            kahn_spec S (node # queue) deg order out"

text \<open>The dictionary and the in-degree function agree on every key of the dictionary.\<close>

definition agrees :: "int dict \<Rightarrow> (string \<Rightarrow> int) \<Rightarrow> bool" where
  "agrees deg f \<longleftrightarrow> (\<forall>t v. map_of deg t = Some v \<longrightarrow> f t = v)"

lemma relax_decrement_spec:
  "relax ss (deg, q) = Inr (deg', q') \<Longrightarrow> agrees deg f \<Longrightarrow>
   \<exists>f'. decrement_spec ss (f, q) = (f', q') \<and> agrees deg' f'"
proof (induction ss arbitrary: deg q f)
  case Nil
  then show ?case by auto
next
  case (Cons s ss)
  from Cons.prems(1) obtain d where d: "map_of deg s = Some d"
    and rec: "relax ss (setitem s (d - 1) deg, if d - 1 = 0 then q @ [s] else q)
                = Inr (deg', q')"
    by (auto simp: getitem_def split: option.splits)
  from Cons.prems(2) d have fs: "f s = d" by (simp add: agrees_def)
  have "agrees (setitem s (d - 1) deg) (f(s := f s - 1))"
    using Cons.prems(2) fs by (auto simp: agrees_def map_of_setitem)
  from Cons.IH [OF rec this] obtain f' where
    "decrement_spec ss (f(s := f s - 1), if d - 1 = 0 then q @ [s] else q) = (f', q')"
    and "agrees deg' f'" by blast
  with fs have "decrement_spec (s # ss) (f, q) = (f', q') \<and> agrees deg' f'" by simp
  then show ?case by blast
qed

lemma kahn_loop_kahn_spec:
  "kahn_loop succ q deg topo = Inr out \<Longrightarrow> agrees deg f \<Longrightarrow>
   kahn_spec (dd_get succ) q f topo out"
proof (induction succ q deg topo arbitrary: f rule: kahn_loop.induct)
  case (1 succ deg topo)
  then show ?case by (simp add: kahn_spec.finished)
next
  case (2 succ node queue deg topo)
  from "2.prems"(1) obtain deg' queue' where
    r: "relax (dd_get succ node) (deg, queue) = Inr (deg', queue')"
    and k: "kahn_loop succ queue' deg' (topo @ [node]) = Inr out"
    by (auto split: sum.splits)
  from relax_decrement_spec [OF r "2.prems"(2)] obtain f' where
    d: "decrement_spec (dd_get succ node) (f, queue) = (f', queue')" and a: "agrees deg' f'"
    by blast
  from "2.IH" [OF r refl k a] d show ?case by (rule kahn_spec.dequeue [rotated])
qed

lemma topological_sort_kahn_spec:
  assumes dist: "distinct (tasks_of rows)"
    and run: "topological_sort (tasks_of rows) (predecessors_dict rows) (successors_dict rows)
                = Inr out"
  shows "kahn_spec (succs_of rows)
           (filter (\<lambda>t. preds_of rows t = []) (tasks_of rows))
           (\<lambda>t. int (length (preds_of rows t))) [] out"
proof -
  let ?tasks = "tasks_of rows" and ?P = "preds_of rows"
  have "\<forall>t \<in> set ?tasks. map_of (predecessors_dict rows) t = Some (?P t)"
    by (simp add: map_of_predecessors_dict [OF dist])
  from in_degree_init_result [OF this, of "[]"] obtain deg where
    i: "in_degree_init ?tasks (predecessors_dict rows) [] = Inr deg"
    and d: "\<forall>t. map_of deg t =
              (if t \<in> set ?tasks then Some (int (length (?P t))) else None)"
    by auto
  from d have "\<forall>t \<in> set ?tasks. map_of deg t = Some (int (length (?P t)))" by simp
  from queue_init_result [OF this]
  have q: "queue_init ?tasks deg = Inr (filter (\<lambda>t. ?P t = []) ?tasks)" by simp
  from run i q have k: "kahn_loop (successors_dict rows) (filter (\<lambda>t. ?P t = []) ?tasks) deg []
                         = Inr out"
    by (simp add: topological_sort_def)
  have a: "agrees deg (\<lambda>t. int (length (?P t)))"
    using d by (auto simp: agrees_def split: if_splits)
  have "dd_get (successors_dict rows) = succs_of rows"
    by (simp add: fun_eq_iff dd_get_successors_dict)
  with kahn_loop_kahn_spec [OF k a] show ?thesis by simp
qed

section \<open>Concrete networks\<close>

text \<open>Scenario A of the specification: A(3), B(2) after A, C(4) after A, D(1) after B and C.\<close>

definition scenario_A :: "task_row list" where
  "scenario_A =
     [\<lparr>Task = ''A'', Duration = 3, Predecessors = []\<rparr>,
      \<lparr>Task = ''B'', Duration = 2, Predecessors = [''A'']\<rparr>,
      \<lparr>Task = ''C'', Duration = 4, Predecessors = [''A'']\<rparr>,
      \<lparr>Task = ''D'', Duration = 1, Predecessors = [''B'', ''C'']\<rparr>]"

text \<open>A root task and two tasks that name each other as predecessor.\<close>

definition cyclic_rows :: "task_row list" where
  "cyclic_rows =
     [\<lparr>Task = ''A'', Duration = 3, Predecessors = []\<rparr>,
      \<lparr>Task = ''B'', Duration = 2, Predecessors = [''C'']\<rparr>,
      \<lparr>Task = ''C'', Duration = 4, Predecessors = [''B'']\<rparr>]"

text \<open>
  Two rows with the same task identifier, the first naming a predecessor that is no task.
  The second row replaces the first in \<^verbatim>\<open>predecessors\<close> (line 57).
\<close>

definition duplicate_rows :: "task_row list" where
  "duplicate_rows =
     [\<lparr>Task = ''A'', Duration = 3, Predecessors = [''X'']\<rparr>,
      \<lparr>Task = ''A'', Duration = 3, Predecessors = []\<rparr>]"

lemma edges_Nil: "edges [] = {}"
  by (simp add: edges_def)

lemma edges_Cons:
  "edges (r # rows) = (\<lambda>p. (p, Task r)) ` set (Predecessors r) \<union> edges rows"
  by (auto simp: edges_def)

lemma edges_scenario_A:
  "edges scenario_A = {(''A'', ''B''), (''A'', ''C''), (''B'', ''D''), (''C'', ''D'')}"
  by (auto simp: edges_Cons edges_Nil scenario_A_def)

lemma scenario_A_valid: "valid_dag scenario_A"
proof -
  have "acyclic (edges scenario_A)"
  proof (rule acyclicI_order [where f = "\<lambda>t. if t = ''A'' then 3 else if t = ''D'' then 1 else (2::nat)"])
    fix a b assume "(a, b) \<in> edges scenario_A"
    then show "(if b = ''A'' then 3 else if b = ''D'' then 1 else (2::nat))
                 < (if a = ''A'' then 3 else if a = ''D'' then 1 else 2)"
      by (auto simp: edges_scenario_A)
  qed
  moreover have "distinct (tasks_of scenario_A)" by (simp add: tasks_of_def scenario_A_def)
  moreover have "refs_exist scenario_A" by (simp add: refs_exist_def tasks_of_def scenario_A_def)
  moreover have "scenario_A \<noteq> []" by (simp add: scenario_A_def)
  ultimately show ?thesis by (simp add: valid_dag_def)
qed

lemma cyclic_rows_cycle: "\<not> acyclic (edges cyclic_rows)"
proof -
  have "(''B'', ''C'') \<in> edges cyclic_rows" "(''C'', ''B'') \<in> edges cyclic_rows"
    by (simp_all add: edges_Cons edges_Nil cyclic_rows_def)
  then have "(''B'', ''B'') \<in> (edges cyclic_rows)\<^sup>+" by (rule trancl_trans [OF r_into_trancl r_into_trancl])
  then show ?thesis by (auto simp: acyclic_def)
qed

lemma run_scenario_A:
  "compute_cpm id scenario_A =
     Inr \<lparr>topo_order = [''A'', ''B'', ''C'', ''D''],
          ES = [(''A'', 0), (''B'', 3), (''C'', 3), (''D'', 7)],
          EF = [(''A'', 3), (''B'', 5), (''C'', 7), (''D'', 8)],
          project_duration = 8,
          LS = [(''D'', 7), (''C'', 3), (''B'', 5), (''A'', 0)],
          LF = [(''D'', 8), (''C'', 7), (''B'', 7), (''A'', 3)],
          slack = [(''A'', 0), (''B'', 2), (''C'', 0), (''D'', 0)],
          best_info =
            [(''A'', 3, 1, [''A'']), (''B'', 5, 2, [''A'', ''B'']),
             (''C'', 7, 2, [''A'', ''C'']), (''D'', 8, 3, [''A'', ''C'', ''D''])],
          critical_path = [''A'', ''C'', ''D'']\<rparr>"
  by code_simp

lemma run_cyclic_rows: "compute_cpm id cyclic_rows = Inl (KeyError ''B'')"
  by code_simp

lemma duplicate_rows_dangling: "\<not> refs_exist duplicate_rows"
  by (simp add: refs_exist_def tasks_of_def duplicate_rows_def)

lemma run_duplicate_rows:
  "compute_cpm id duplicate_rows =
     Inr \<lparr>topo_order = [''A'', ''A''],
          ES = [(''A'', 0)], EF = [(''A'', 3)],
          project_duration = 3,
          LS = [(''A'', 0)], LF = [(''A'', 3)],
          slack = [(''A'', 0)],
          best_info = [(''A'', 3, 1, [''A''])],
          critical_path = [''A'']\<rparr>"
  by code_simp

text \<open>
  Scenario C of the specification, a predecessor that is no task: the only task never
  enters the queue, and the run fails on line 87, with no mention of the missing
  identifier.
\<close>

lemma run_dangling_reference:
  "compute_cpm id [\<lparr>Task = ''A'', Duration = 3, Predecessors = [''X'']\<rparr>] = Inl ValueError"
  by code_simp

section \<open>Evaluating float arithmetic\<close>

lemma bit_length_numeral [simp]:
  "bit_length 0 = 0"
  "bit_length (Suc 0) = Suc 0"
  "bit_length (numeral (Num.Bit0 n)) = Suc (bit_length (numeral n))"
  "bit_length (numeral (Num.Bit1 n)) = Suc (bit_length (numeral n))"
proof -
  show "bit_length 0 = 0" by (simp add: bit_length.simps)
  show "bit_length (Suc 0) = Suc 0" by (subst bit_length.simps) (simp add: bit_length.simps)
  have "numeral (Num.Bit0 n) div (2::nat) = numeral n" by simp
  then show "bit_length (numeral (Num.Bit0 n)) = Suc (bit_length (numeral n))"
    by (subst bit_length.simps) simp
  have "numeral (Num.Bit1 n) div (2::nat) = numeral n" by simp
  then show "bit_length (numeral (Num.Bit1 n)) = Suc (bit_length (numeral n))"
    by (subst bit_length.simps) simp
qed

text \<open>The float nearest 0.1.\<close>

lemma float_tenth: "float_round (1 / 10) = 3602879701896397 / 36028797018963968"
proof -
  have b: "binade (1 / 10) = - 4" by (simp add: binade_def)
  have u: "pow2 (- 56) = 1 / 72057594037927936" by (simp add: pow2_def)
  have r: "round_half_even (36028797018963968 / 5) = 7205759403792794" by (simp add: round_half_even_def Let_def)
  show ?thesis by (simp add: float_round_def b u r)
qed

text \<open>The float nearest 0.4.\<close>

lemma float_four_tenths: "float_round (2 / 5) = 3602879701896397 / 9007199254740992"
proof -
  have b: "binade (2 / 5) = - 2" by (simp add: binade_def)
  have u: "pow2 (- 54) = 1 / 18014398509481984" by (simp add: pow2_def)
  have r: "round_half_even (36028797018963968 / 5) = 7205759403792794" by (simp add: round_half_even_def Let_def)
  show ?thesis by (simp add: float_round_def b u r)
qed

text \<open>\<^verbatim>\<open>0 + 0.1\<close>\<close>

lemma float_tenth_fixed: "float_round (3602879701896397 / 36028797018963968) = 3602879701896397 / 36028797018963968"
proof -
  have b: "binade (3602879701896397 / 36028797018963968) = - 4" by (simp add: binade_def)
  have u: "pow2 (- 56) = 1 / 72057594037927936" by (simp add: pow2_def)
  have r: "round_half_even (7205759403792794) = 7205759403792794" by (simp add: round_half_even_def Let_def)
  show ?thesis by (simp add: float_round_def b u r)
qed


text \<open>\<^verbatim>\<open>0.1 + 0.4\<close> is \<^verbatim>\<open>0.5\<close>.\<close>

lemma float_sum: "float_round (18014398509481985 / 36028797018963968) = 1 / 2"
proof -
  have b: "binade (18014398509481985 / 36028797018963968) = - 1" by (simp add: binade_def)
  have u: "pow2 (- 53) = 1 / 9007199254740992" by (simp add: pow2_def)
  have r: "round_half_even (18014398509481985 / 4) = 4503599627370496" by (simp add: round_half_even_def Let_def)
  show ?thesis by (simp add: float_round_def b u r)
qed

text \<open>\<^verbatim>\<open>0.5 - 0.4\<close> is \<^verbatim>\<open>0.09999999999999998\<close>, below the float nearest 0.1.\<close>

lemma float_back: "float_round (900719925474099 / 9007199254740992) = 900719925474099 / 9007199254740992"
proof -
  have b: "binade (900719925474099 / 9007199254740992) = - 4" by (simp add: binade_def)
  have u: "pow2 (- 56) = 1 / 72057594037927936" by (simp add: pow2_def)
  have r: "round_half_even (7205759403792792) = 7205759403792792" by (simp add: round_half_even_def Let_def)
  show ?thesis by (simp add: float_round_def b u r)
qed

text \<open>\<^verbatim>\<open>0.09999999999999998 - 0.1\<close> is \<^verbatim>\<open>-2.7755575615628914e-17\<close>, a float.\<close>

lemma float_gap: "float_round (- (1 / 36028797018963968)) = - (1 / 36028797018963968)"
proof -
  have b: "binade (- (1 / 36028797018963968)) = - 55" by (simp add: binade_def)
  have u: "pow2 (- 107) = 1 / 162259276829213363391578010288128" by (simp add: pow2_def)
  have r: "round_half_even (4503599627370496) = 4503599627370496" by (simp add: round_half_even_def Let_def)
  show ?thesis by (simp add: float_round_def b u r)
qed

text \<open>
  Two tasks in sequence with the float durations 0.1 and 0.4 (the floats nearest to
  these decimals, lemmas \<open>float_tenth\<close> and \<open>float_four_tenths\<close>).
\<close>

definition float_rows :: "task_row list" where
  "float_rows =
     [\<lparr>Task = ''A'', Duration = 3602879701896397 / 36028797018963968, Predecessors = []\<rparr>,
      \<lparr>Task = ''B'', Duration = 3602879701896397 / 9007199254740992, Predecessors = [''A'']\<rparr>]"

lemma float_rows_valid: "valid_dag float_rows"
proof -
  have "edges float_rows = {(''A'', ''B'')}"
    by (auto simp: edges_Cons edges_Nil float_rows_def)
  moreover have "acyclic {(''A'', ''B'')}"
    by (rule acyclicI_order [where f = "\<lambda>t. if t = ''B'' then 0 else (1::nat)"]) auto
  ultimately show ?thesis
    by (simp add: valid_dag_def refs_exist_def tasks_of_def float_rows_def)
qed

lemma run_float_rows:
  "compute_cpm float_round float_rows =
     Inr \<lparr>topo_order = [''A'', ''B''],
          ES = [(''A'', 0), (''B'', 3602879701896397 / 36028797018963968)],
          EF = [(''A'', 3602879701896397 / 36028797018963968), (''B'', 1 / 2)],
          project_duration = 1 / 2,
          LS = [(''B'', 900719925474099 / 9007199254740992), (''A'', - (1 / 36028797018963968))],
          LF = [(''B'', 1 / 2), (''A'', 900719925474099 / 9007199254740992)],
          slack = [(''A'', - (1 / 36028797018963968)), (''B'', - (1 / 36028797018963968))],
          best_info =
            [(''A'', 3602879701896397 / 36028797018963968, 1, [''A'']), (''B'', 1 / 2, 2, [''A'', ''B''])],
          critical_path = [''A'', ''B'']\<rparr>"
  by (simp add: compute_cpm_def Let_def tasks_of_def duration_dict_def predecessors_dict_def
      successors_dict_def topological_sort_def float_rows_def setitem_def getitem_def
      dd_get_def dict_values_def end_tasks_def info_get_def
      float_tenth_fixed float_sum float_back float_gap)

section \<open>Properties of the arithmetic\<close>

text \<open>
  The arithmetic never turns a non-negative exact result into a negative number. Both
  the exact arithmetic and the float arithmetic are of this kind.
\<close>

definition keeps_sign :: "(real \<Rightarrow> real) \<Rightarrow> bool" where
  "keeps_sign rnd \<longleftrightarrow> (\<forall>x. 0 \<le> x \<longrightarrow> 0 \<le> rnd x)"

lemma keeps_sign_id: "keeps_sign id"
  by (simp add: keeps_sign_def)




subsection \<open>Float rounding is monotone and leaves floats unchanged\<close>



































subsection \<open>Roundings\<close>

text \<open>
  What the results below need of the arithmetic: the rounding is monotone, it leaves a
  number it has produced unchanged, and it leaves 0 unchanged. The durations are numbers
  of the arithmetic when rounding leaves them unchanged: every integer in exact
  arithmetic, the floats in float arithmetic.
\<close>

definition rounding :: "(real \<Rightarrow> real) \<Rightarrow> bool" where
  "rounding rnd \<longleftrightarrow>
     (\<forall>x y. x \<le> y \<longrightarrow> rnd x \<le> rnd y) \<and> (\<forall>x. rnd (rnd x) = rnd x) \<and> rnd 0 = 0"

definition representable :: "(real \<Rightarrow> real) \<Rightarrow> task_row list \<Rightarrow> bool" where
  "representable rnd rows \<longleftrightarrow> (\<forall>r \<in> set rows. rnd (Duration r) = Duration r)"

lemma rounding_id: "rounding id"
  by (simp add: rounding_def)

lemma representable_id: "representable id rows"
  by (simp add: representable_def)



lemma rounding_mono: "rounding rnd \<Longrightarrow> x \<le> y \<Longrightarrow> rnd x \<le> rnd y"
  by (simp add: rounding_def)

lemma rounding_idem: "rounding rnd \<Longrightarrow> rnd (rnd x) = rnd x"
  by (simp add: rounding_def)

section \<open>The topological order of a valid network\<close>

lemma getitem_entry: "k \<in> dom (map_of d) \<Longrightarrow> getitem d k = Inr (entry d k)"
  by (auto simp: getitem_def entry_def)

text \<open>
  Claim C3. For an acyclic graph whose predecessor references all exist (task identifiers
  being unique), the topological sort returns an order as long as the task list, in which
  every predecessor of a task stands before the task; the order is the one of Kahn's
  algorithm as the specification words it: a FIFO queue seeded with the tasks without
  predecessors in declaration order, successors treated in first-seen order. It is the
  \<^verbatim>\<open>topo_order\<close> every later stage of the run uses.
\<close>

theorem topological_sort_valid:
  assumes "distinct (tasks_of rows)" and "refs_exist rows" and "acyclic (edges rows)"
  shows "\<exists>out. topological_sort (tasks_of rows) (predecessors_dict rows) (successors_dict rows)
                 = Inr out
           \<and> length out = length (tasks_of rows)
           \<and> (\<forall>r \<in> set rows. \<forall>pre post.
                 out = pre @ Task r # post \<longrightarrow> set (Predecessors r) \<subseteq> set pre)
           \<and> kahn_spec (succs_of rows)
                 (filter (\<lambda>t. preds_of rows t = []) (tasks_of rows))
                 (\<lambda>t. int (length (preds_of rows t))) [] out
           \<and> (\<forall>rnd s. compute_cpm rnd rows = Inr s \<longrightarrow> topo_order s = out)"
proof -
  let ?T = "tasks_of rows" and ?P = "preds_of rows"
  note dist = assms(1)
  from topological_sort_ok [OF dist] obtain out where
    run: "topological_sort ?T (predecessors_dict rows) (successors_dict rows) = Inr out"
    and ok: "topo_ok ?T ?P out" by blast
  have closed: "\<forall>t \<in> set ?T. set (?P t) \<subseteq> set ?T"
    using assms(2) refs_exist_preds [OF dist] by simp
  have "{(p, t). t \<in> set ?T \<and> p \<in> set (?P t)} = edges rows"
    using edges_preds [OF dist] by auto
  with assms(3) have "acyclic {(p, t). t \<in> set ?T \<and> p \<in> set (?P t)}" by simp
  from topo_ok_complete [OF ok closed this] have full: "set out = set ?T" .
  from ok have "distinct out" by (simp add: topo_ok_def)
  with full dist have len: "length out = length ?T"
    by (metis distinct_card)
  have before: "\<forall>r \<in> set rows. \<forall>pre post.
                 out = pre @ Task r # post \<longrightarrow> set (Predecessors r) \<subseteq> set pre"
  proof (intro ballI allI impI)
    fix r pre post assume r: "r \<in> set rows" and o: "out = pre @ Task r # post"
    from topo_ok_split [OF ok o] preds_of_row [OF dist r]
    show "set (Predecessors r) \<subseteq> set pre" by simp
  qed
  have same: "\<forall>rnd s. compute_cpm rnd rows = Inr s \<longrightarrow> topo_order s = out"
    using compute_cpm_Inr(1) [of _ rows] run by auto
  from run len before topological_sort_kahn_spec [OF dist run] same show ?thesis by blast
qed

theorem topological_sort_valid_witness:
  "\<exists>out. topological_sort (tasks_of scenario_A) (predecessors_dict scenario_A)
            (successors_dict scenario_A) = Inr out
     \<and> length out = length (tasks_of scenario_A)
     \<and> (\<forall>r \<in> set scenario_A. \<forall>pre post.
           out = pre @ Task r # post \<longrightarrow> set (Predecessors r) \<subseteq> set pre)
     \<and> kahn_spec (succs_of scenario_A)
           (filter (\<lambda>t. preds_of scenario_A t = []) (tasks_of scenario_A))
           (\<lambda>t. int (length (preds_of scenario_A t))) [] out
     \<and> (\<forall>rnd s. compute_cpm rnd scenario_A = Inr s \<longrightarrow> topo_order s = out)"
  using topological_sort_valid [of scenario_A] scenario_A_valid
  by (simp add: valid_dag_def)

section \<open>The forward pass on a valid network\<close>

text \<open>
  Claim C4. On a valid network the run succeeds; the forward pass treats the tasks in
  topological order (the keys of \<^verbatim>\<open>ES\<close> and \<^verbatim>\<open>EF\<close> are inserted in that order); every
  task without predecessors has \<^verbatim>\<open>ES = 0\<close>, every other task has \<^verbatim>\<open>ES\<close> the greatest
  \<^verbatim>\<open>EF\<close> of its predecessors; always \<^verbatim>\<open>EF = ES + duration\<close>; and the project duration is
  the greatest \<^verbatim>\<open>EF\<close> of all tasks. The sum is the one of the arithmetic of the durations,
  whichever it is: \<open>rnd\<close> applied to the exact sum.
\<close>

theorem forward_pass_contract:
  assumes "valid_dag rows"
  shows "\<exists>s. compute_cpm rnd rows = Inr s
           \<and> map fst (ES s) = topo_order s \<and> map fst (EF s) = topo_order s
           \<and> (\<forall>r \<in> set rows.
                 getitem (ES s) (Task r) =
                   Inr (if Predecessors r = [] then 0
                        else Max (entry (EF s) ` set (Predecessors r)))
                 \<and> getitem (EF s) (Task r) = Inr (rnd (entry (ES s) (Task r) + Duration r)))
           \<and> project_duration s = Max (entry (EF s) ` set (tasks_of rows))"
proof -
  from compute_cpm_valid [OF assms] obtain s where
    run: "compute_cpm rnd rows = Inr s" and ok: "schedule_ok rnd rows s" by blast
  from assms have dist: "distinct (tasks_of rows)" by (simp add: valid_dag_def)
  from ok have dtopo: "distinct (topo_order s)" by (simp add: schedule_ok_def topo_ok_def)
  from forward_pass_order [OF compute_cpm_Inr(2) [OF run] dtopo]
  have keys: "map fst (ES s) = topo_order s" "map fst (EF s) = topo_order s" by simp_all
  have each: "\<forall>r \<in> set rows.
                 getitem (ES s) (Task r) =
                   Inr (if Predecessors r = [] then 0
                        else Max (entry (EF s) ` set (Predecessors r)))
                 \<and> getitem (EF s) (Task r) = Inr (rnd (entry (ES s) (Task r) + Duration r))"
  proof
    fix r assume r: "r \<in> set rows"
    then have t: "Task r \<in> set (tasks_of rows)" by (simp add: tasks_of_def)
    from ok t have d: "Task r \<in> dom (map_of (ES s))" "Task r \<in> dom (map_of (EF s))"
      by (simp_all add: schedule_ok_def)
    from ok t have
      "entry (ES s) (Task r) =
         (if preds_of rows (Task r) = [] then 0
          else Max (entry (EF s) ` set (preds_of rows (Task r))))
       \<and> entry (EF s) (Task r) = rnd (entry (ES s) (Task r) + dur_of rows (Task r))"
      unfolding schedule_ok_def by blast
    with getitem_entry [OF d(1)] getitem_entry [OF d(2)]
      preds_of_row [OF dist r] dur_of_row [OF dist r]
    show "getitem (ES s) (Task r) =
                   Inr (if Predecessors r = [] then 0
                        else Max (entry (EF s) ` set (Predecessors r)))
                 \<and> getitem (EF s) (Task r) = Inr (rnd (entry (ES s) (Task r) + Duration r))"
      by simp
  qed
  from ok have "project_duration s = Max (entry (EF s) ` set (tasks_of rows))"
    by (simp add: schedule_ok_def)
  with run keys each show ?thesis by blast
qed

theorem forward_pass_contract_witness:
  "\<exists>s. compute_cpm float_round scenario_A = Inr s
     \<and> map fst (ES s) = topo_order s \<and> map fst (EF s) = topo_order s
     \<and> (\<forall>r \<in> set scenario_A.
           getitem (ES s) (Task r) =
             Inr (if Predecessors r = [] then 0
                  else Max (entry (EF s) ` set (Predecessors r)))
           \<and> getitem (EF s) (Task r) = Inr (float_round (entry (ES s) (Task r) + Duration r)))
     \<and> project_duration s = Max (entry (EF s) ` set (tasks_of scenario_A))"
  using forward_pass_contract [OF scenario_A_valid, of float_round] .

section \<open>The backward pass on a valid network\<close>

lemma set_succs_of:
  "set (succs_of rows t) = {Task r | r. r \<in> set rows \<and> t \<in> set (Predecessors r)}"
  unfolding succs_of_def by (auto simp: count_list_0_iff)

text \<open>
  Claim C5. On a valid network the backward pass treats the tasks in reverse topological
  order (the keys of \<^verbatim>\<open>LS\<close> and \<^verbatim>\<open>LF\<close> are inserted in that order); every task without
  successors has \<^verbatim>\<open>LF = project_duration\<close>, every other task has \<^verbatim>\<open>LF\<close> the least \<^verbatim>\<open>LS\<close>
  of its successors; always \<^verbatim>\<open>LS = LF - duration\<close>; and the slack of every task is
  \<^verbatim>\<open>LS - ES\<close>. The successors of a task are the tasks that name it as a predecessor
  (\<^const>\<open>succs_of\<close>, which is what \<^verbatim>\<open>successors[task]\<close> holds). The differences are
  those of the arithmetic of the durations, whichever it is: \<open>rnd\<close> applied to the exact
  difference.
\<close>

theorem backward_pass_contract:
  assumes "valid_dag rows"
  shows "\<exists>s. compute_cpm rnd rows = Inr s
           \<and> map fst (LS s) = rev (topo_order s) \<and> map fst (LF s) = rev (topo_order s)
           \<and> (\<forall>r \<in> set rows.
                 dd_get (successors_dict rows) (Task r) = succs_of rows (Task r)
                 \<and> getitem (LF s) (Task r) =
                     Inr (if succs_of rows (Task r) = [] then project_duration s
                          else Min (entry (LS s) ` set (succs_of rows (Task r))))
                 \<and> getitem (LS s) (Task r) = Inr (rnd (entry (LF s) (Task r) - Duration r))
                 \<and> getitem (slack s) (Task r)
                     = Inr (rnd (entry (LS s) (Task r) - entry (ES s) (Task r))))"
proof -
  from compute_cpm_valid [OF assms] obtain s where
    run: "compute_cpm rnd rows = Inr s" and ok: "schedule_ok rnd rows s" by blast
  from assms have dist: "distinct (tasks_of rows)" by (simp add: valid_dag_def)
  from ok have "distinct (rev (topo_order s))" by (simp add: schedule_ok_def topo_ok_def)
  from backward_pass_order [OF compute_cpm_Inr(4) [OF run] this]
  have keys: "map fst (LS s) = rev (topo_order s)" "map fst (LF s) = rev (topo_order s)"
    by simp_all
  have each: "\<forall>r \<in> set rows.
                 dd_get (successors_dict rows) (Task r) = succs_of rows (Task r)
                 \<and> getitem (LF s) (Task r) =
                     Inr (if succs_of rows (Task r) = [] then project_duration s
                          else Min (entry (LS s) ` set (succs_of rows (Task r))))
                 \<and> getitem (LS s) (Task r) = Inr (rnd (entry (LF s) (Task r) - Duration r))
                 \<and> getitem (slack s) (Task r)
                     = Inr (rnd (entry (LS s) (Task r) - entry (ES s) (Task r)))"
  proof
    fix r assume r: "r \<in> set rows"
    then have t: "Task r \<in> set (tasks_of rows)" by (simp add: tasks_of_def)
    from ok t have d: "Task r \<in> dom (map_of (LS s))" "Task r \<in> dom (map_of (LF s))"
      "Task r \<in> dom (map_of (slack s))"
      by (simp_all add: schedule_ok_def)
    from ok t have
      "entry (LF s) (Task r) =
         (if succs_of rows (Task r) = [] then project_duration s
          else Min (entry (LS s) ` set (succs_of rows (Task r))))
       \<and> entry (LS s) (Task r) = rnd (entry (LF s) (Task r) - dur_of rows (Task r))"
      unfolding schedule_ok_def by blast
    moreover from ok t have
      "entry (slack s) (Task r) = rnd (entry (LS s) (Task r) - entry (ES s) (Task r))"
      unfolding schedule_ok_def by blast
    ultimately show "dd_get (successors_dict rows) (Task r) = succs_of rows (Task r)
                 \<and> getitem (LF s) (Task r) =
                     Inr (if succs_of rows (Task r) = [] then project_duration s
                          else Min (entry (LS s) ` set (succs_of rows (Task r))))
                 \<and> getitem (LS s) (Task r) = Inr (rnd (entry (LF s) (Task r) - Duration r))
                 \<and> getitem (slack s) (Task r)
                     = Inr (rnd (entry (LS s) (Task r) - entry (ES s) (Task r)))"
      using getitem_entry [OF d(1)] getitem_entry [OF d(2)] getitem_entry [OF d(3)]
        dur_of_row [OF dist r] dd_get_successors_dict [of rows "Task r"]
      by simp
  qed
  with run keys show ?thesis by blast
qed

theorem backward_pass_contract_witness:
  "\<exists>s. compute_cpm float_round scenario_A = Inr s
     \<and> map fst (LS s) = rev (topo_order s) \<and> map fst (LF s) = rev (topo_order s)
     \<and> (\<forall>r \<in> set scenario_A.
           dd_get (successors_dict scenario_A) (Task r) = succs_of scenario_A (Task r)
           \<and> getitem (LF s) (Task r) =
               Inr (if succs_of scenario_A (Task r) = [] then project_duration s
                    else Min (entry (LS s) ` set (succs_of scenario_A (Task r))))
           \<and> getitem (LS s) (Task r) = Inr (float_round (entry (LF s) (Task r) - Duration r))
           \<and> getitem (slack s) (Task r)
               = Inr (float_round (entry (LS s) (Task r) - entry (ES s) (Task r))))"
  using backward_pass_contract [OF scenario_A_valid, of float_round] .

section \<open>Malformed graphs\<close>

text \<open>
  Claim C1, as the specification states it, does not hold of the code: there is no
  validation step and no graph error. On the network \<^const>\<open>cyclic_rows\<close> the sort returns
  the truncated order \<^verbatim>\<open>[A]\<close>, the forward and backward passes run to completion on it,
  and the run fails only on line 100 with \<^verbatim>\<open>KeyError\<close> for a task of the cycle. On
  \<^const>\<open>duplicate_rows\<close>, where a predecessor identifier is no task and the task identifier
  occurs twice, the run does not fail at all: it returns a schedule.
\<close>

theorem malformed_graph_not_rejected:
  "\<not> acyclic (edges cyclic_rows)
   \<and> topological_sort (tasks_of cyclic_rows) (predecessors_dict cyclic_rows)
       (successors_dict cyclic_rows) = Inr [''A'']
   \<and> forward_pass id [''A''] (predecessors_dict cyclic_rows) (duration_dict cyclic_rows) ([], [])
       = Inr ([(''A'', 0)], [(''A'', 3)])
   \<and> backward_pass id (rev [''A'']) (successors_dict cyclic_rows) (duration_dict cyclic_rows) 3
       ([], []) = Inr ([(''A'', 0)], [(''A'', 3)])
   \<and> compute_cpm id cyclic_rows = Inl (KeyError ''B'')
   \<and> \<not> refs_exist duplicate_rows
   \<and> compute_cpm id duplicate_rows =
       Inr \<lparr>topo_order = [''A'', ''A''],
            ES = [(''A'', 0)], EF = [(''A'', 3)],
            project_duration = 3,
            LS = [(''A'', 0)], LF = [(''A'', 3)],
            slack = [(''A'', 0)],
            best_info = [(''A'', 3, 1, [''A''])],
            critical_path = [''A'']\<rparr>"
proof -
  have "topological_sort (tasks_of cyclic_rows) (predecessors_dict cyclic_rows)
       (successors_dict cyclic_rows) = Inr [''A'']
   \<and> forward_pass id [''A''] (predecessors_dict cyclic_rows) (duration_dict cyclic_rows) ([], [])
       = Inr ([(''A'', 0)], [(''A'', 3)])
   \<and> backward_pass id (rev [''A'']) (successors_dict cyclic_rows) (duration_dict cyclic_rows) 3
       ([], []) = Inr ([(''A'', 0)], [(''A'', 3)])"
    by code_simp
  with cyclic_rows_cycle run_cyclic_rows duplicate_rows_dangling run_duplicate_rows
  show ?thesis by simp
qed

text \<open>
  Claim C1, amended. With unique task identifiers, every input whose graph has a cycle or
  a predecessor identifier that is no task makes the run fail with an exception
  (\<^verbatim>\<open>KeyError\<close> or \<^verbatim>\<open>ValueError\<close>), whatever the arithmetic of the durations: no
  schedule is returned. Without unique identifiers this fails, as \<^const>\<open>duplicate_rows\<close>
  shows.
\<close>

theorem malformed_graph_fails:
  assumes dist: "distinct (tasks_of rows)"
    and bad: "\<not> acyclic (edges rows) \<or> \<not> refs_exist rows"
  shows "\<exists>e. compute_cpm rnd rows = Inl e"
proof (cases "compute_cpm rnd rows")
  case (Inl e)
  then show ?thesis by blast
next
  case (Inr s)
  let ?T = "tasks_of rows" and ?P = "preds_of rows"
  from topological_sort_ok [OF dist] compute_cpm_Inr(1) [OF Inr]
  have ok: "topo_ok ?T ?P (topo_order s)" by auto
  from backward_pass_keys [OF compute_cpm_Inr(4) [OF Inr]]
  have "dom (map_of (LS s)) = set (topo_order s)" by simp
  with slack_dict_keys [OF compute_cpm_Inr(5) [OF Inr]]
  have "set ?T \<subseteq> set (topo_order s)" by simp
  with ok have full: "set (topo_order s) = set ?T" by (auto simp: topo_ok_def)
  from topo_ok_closed [OF ok full] have "refs_exist rows"
    using refs_exist_preds [OF dist] by simp
  moreover have "{(p, t). t \<in> set (topo_order s) \<and> p \<in> set (?P t)} = edges rows"
    using edges_preds [OF dist] full by auto
  with topo_ok_acyclic [OF ok] have "acyclic (edges rows)" by simp
  ultimately show ?thesis using bad by simp
qed

theorem malformed_graph_fails_witness:
  "distinct (tasks_of cyclic_rows) \<and> \<not> acyclic (edges cyclic_rows)
   \<and> (\<exists>e. compute_cpm id cyclic_rows = Inl e)"
proof -
  have d: "distinct (tasks_of cyclic_rows)" by (simp add: tasks_of_def cyclic_rows_def)
  from malformed_graph_fails [OF d] cyclic_rows_cycle d show ?thesis by blast
qed

section \<open>Paths through the network\<close>

text \<open>
  A chain is a sequence of tasks in which each task is a declared predecessor of the next;
  a root-to-terminal path is a non-empty chain from a task without predecessors to a task
  without successors.
\<close>

definition chain :: "task_row list \<Rightarrow> string list \<Rightarrow> bool" where
  "chain rows xs \<longleftrightarrow>
     set xs \<subseteq> set (tasks_of rows) \<and> successively (\<lambda>a b. a \<in> set (preds_of rows b)) xs"

definition root_to_terminal :: "task_row list \<Rightarrow> string list \<Rightarrow> bool" where
  "root_to_terminal rows xs \<longleftrightarrow>
     xs \<noteq> [] \<and> chain rows xs \<and> preds_of rows (hd xs) = [] \<and> succs_of rows (last xs) = []"

definition path_duration :: "task_row list \<Rightarrow> string list \<Rightarrow> real" where
  "path_duration rows xs = sum_list (map (dur_of rows) xs)"

definition max_path :: "task_row list \<Rightarrow> string list \<Rightarrow> bool" where
  "max_path rows xs \<longleftrightarrow>
     root_to_terminal rows xs
     \<and> (\<forall>ys. root_to_terminal rows ys \<longrightarrow> path_duration rows ys \<le> path_duration rows xs)"

definition nonneg_durations :: "task_row list \<Rightarrow> bool" where
  "nonneg_durations rows \<longleftrightarrow> (\<forall>r \<in> set rows. 0 \<le> Duration r)"

lemma chain_single: "chain rows [t] \<longleftrightarrow> t \<in> set (tasks_of rows)"
  by (simp add: chain_def)

lemma chain_snoc:
  "chain rows (xs @ [t]) \<longleftrightarrow>
     chain rows xs \<and> t \<in> set (tasks_of rows) \<and> (xs = [] \<or> last xs \<in> set (preds_of rows t))"
  by (auto simp: chain_def successively_append_iff)

lemma chain_Cons:
  "chain rows (t # xs) \<longleftrightarrow>
     chain rows xs \<and> t \<in> set (tasks_of rows) \<and> (xs = [] \<or> t \<in> set (preds_of rows (hd xs)))"
  by (cases xs) (auto simp: chain_def)

lemma chain_append:
  "chain rows (xs @ ys) \<longleftrightarrow>
     chain rows xs \<and> chain rows ys
     \<and> (xs = [] \<or> ys = [] \<or> last xs \<in> set (preds_of rows (hd ys)))"
  by (auto simp: chain_def successively_append_iff)

lemma path_duration_simps:
  "path_duration rows [] = 0"
  "path_duration rows (t # xs) = dur_of rows t + path_duration rows xs"
  "path_duration rows (xs @ ys) = path_duration rows xs + path_duration rows ys"
  by (simp_all add: path_duration_def)

section \<open>Facts of a valid network\<close>

lemma valid_dag_dist: "valid_dag rows \<Longrightarrow> distinct (tasks_of rows)"
  by (simp add: valid_dag_def)

lemma valid_dag_edges:
  "valid_dag rows \<Longrightarrow>
   (p, t) \<in> edges rows \<longleftrightarrow> t \<in> set (tasks_of rows) \<and> p \<in> set (preds_of rows t)"
  by (simp add: edges_preds valid_dag_def)

lemma valid_dag_preds:
  "valid_dag rows \<Longrightarrow> t \<in> set (tasks_of rows) \<Longrightarrow> p \<in> set (preds_of rows t) \<Longrightarrow>
   p \<in> set (tasks_of rows)"
  using refs_exist_preds [of rows] by (auto simp: valid_dag_def)

lemma valid_dag_succs:
  "valid_dag rows \<Longrightarrow>
   u \<in> set (succs_of rows t) \<longleftrightarrow> u \<in> set (tasks_of rows) \<and> t \<in> set (preds_of rows u)"
  by (simp add: mem_succs_of valid_dag_def)

lemma valid_dag_wf:
  assumes "valid_dag rows"
  shows "wf (edges rows)" and "wf ((edges rows)\<inverse>)"
proof -
  have "edges rows \<subseteq> set (tasks_of rows) \<times> set (tasks_of rows)"
    using valid_dag_edges [OF assms] valid_dag_preds [OF assms] by auto
  then have fin: "finite (edges rows)" by (rule finite_subset) simp
  from assms have "acyclic (edges rows)" by (simp add: valid_dag_def)
  with fin show "wf (edges rows)" and "wf ((edges rows)\<inverse>)"
    by (simp_all add: finite_acyclic_wf finite_acyclic_wf_converse)
qed

lemma pred_induct [consumes 2, case_names task]:
  assumes v: "valid_dag rows" and t: "t \<in> set (tasks_of rows)"
    and step: "\<And>t. t \<in> set (tasks_of rows) \<Longrightarrow>
                 (\<And>p. p \<in> set (preds_of rows t) \<Longrightarrow> Q p) \<Longrightarrow> Q t"
  shows "Q t"
proof -
  have "t \<in> set (tasks_of rows) \<longrightarrow> Q t"
  proof (induction t rule: wf_induct_rule [OF valid_dag_wf(1) [OF v]])
    case (1 x)
    show ?case
    proof
      assume x: "x \<in> set (tasks_of rows)"
      show "Q x"
      proof (rule step [OF x])
        fix p assume p: "p \<in> set (preds_of rows x)"
        with x have "(p, x) \<in> edges rows" by (simp add: valid_dag_edges [OF v])
        with 1 valid_dag_preds [OF v x p] show "Q p" by blast
      qed
    qed
  qed
  with t show ?thesis by simp
qed

lemma succ_induct [consumes 2, case_names task]:
  assumes v: "valid_dag rows" and t: "t \<in> set (tasks_of rows)"
    and step: "\<And>t. t \<in> set (tasks_of rows) \<Longrightarrow>
                 (\<And>u. u \<in> set (succs_of rows t) \<Longrightarrow> Q u) \<Longrightarrow> Q t"
  shows "Q t"
proof -
  have "t \<in> set (tasks_of rows) \<longrightarrow> Q t"
  proof (induction t rule: wf_induct_rule [OF valid_dag_wf(2) [OF v]])
    case (1 x)
    show ?case
    proof
      assume x: "x \<in> set (tasks_of rows)"
      show "Q x"
      proof (rule step [OF x])
        fix u assume u: "u \<in> set (succs_of rows x)"
        then have ut: "u \<in> set (tasks_of rows)" and "x \<in> set (preds_of rows u)"
          by (simp_all add: valid_dag_succs [OF v])
        then have "(u, x) \<in> (edges rows)\<inverse>" by (simp add: valid_dag_edges [OF v])
        with 1 ut show "Q u" by blast
      qed
    qed
  qed
  with t show ?thesis by simp
qed

lemma dur_of_nonneg:
  assumes "valid_dag rows" and "nonneg_durations rows" and "t \<in> set (tasks_of rows)"
  shows "0 \<le> dur_of rows t"
proof -
  from assms(3) obtain r where r: "r \<in> set rows" "t = Task r" by (auto simp: tasks_of_def)
  with dur_of_row [OF valid_dag_dist [OF assms(1)] r(1)] assms(2) show ?thesis
    by (simp add: nonneg_durations_def)
qed

section \<open>Facts of the schedule\<close>

lemma schedule_ok_forward:
  assumes "schedule_ok rnd rows s" and "t \<in> set (tasks_of rows)"
  shows "entry (ES s) t =
           (if preds_of rows t = [] then 0 else Max (entry (EF s) ` set (preds_of rows t)))"
    and "entry (EF s) t = rnd (entry (ES s) t + dur_of rows t)"
  using assms unfolding schedule_ok_def by blast+

lemma schedule_ok_backward:
  assumes "schedule_ok rnd rows s" and "t \<in> set (tasks_of rows)"
  shows "entry (LF s) t =
           (if succs_of rows t = [] then project_duration s
            else Min (entry (LS s) ` set (succs_of rows t)))"
    and "entry (LS s) t = rnd (entry (LF s) t - dur_of rows t)"
    and "entry (slack s) t = rnd (entry (LS s) t - entry (ES s) t)"
  using assms unfolding schedule_ok_def by blast+

lemma schedule_ok_duration:
  "schedule_ok rnd rows s \<Longrightarrow> project_duration s = Max (entry (EF s) ` set (tasks_of rows))"
  unfolding schedule_ok_def by blast

lemma schedule_ok_info:
  assumes "schedule_ok rnd rows s" and "t \<in> set (tasks_of rows)"
  shows "if preds_of rows t = [] then info_get (best_info s) t = (dur_of rows t, 1, [t])
         else \<exists>prev. is_first_max (\<lambda>p. info_key (info_get (best_info s) p))
                        (preds_of rows t) prev
                \<and> info_get (best_info s) t =
                    extend_info rnd (info_get (best_info s) prev) (dur_of rows t) t"
  using assms unfolding schedule_ok_def by blast

lemma schedule_ok_critical:
  "schedule_ok rnd rows s \<Longrightarrow>
   critical_path s =
     snd (select_path (filter (\<lambda>t. succs_of rows t = []) (tasks_of rows)) (best_info s)
            ((0, 0), []))"
  unfolding schedule_ok_def by blast

section \<open>Earliest finish is the longest way in\<close>

lemma root_chain_bound:
  assumes v: "valid_dag rows" and ok: "schedule_ok id rows s"
  shows "xs \<noteq> [] \<Longrightarrow> chain rows xs \<Longrightarrow> preds_of rows (hd xs) = [] \<Longrightarrow>
         path_duration rows xs \<le> entry (EF s) (last xs)"
proof (induction xs rule: rev_nonempty_induct)
  case (single x)
  then have x: "x \<in> set (tasks_of rows)" by (simp add: chain_single)
  from schedule_ok_forward [OF ok x] single show ?case
    by (simp add: path_duration_simps)
next
  case (snoc t xs)
  from snoc.prems snoc.hyps have c: "chain rows xs" and t: "t \<in> set (tasks_of rows)"
    and l: "last xs \<in> set (preds_of rows t)" and h: "preds_of rows (hd xs) = []"
    by (simp_all add: chain_snoc)
  from snoc.IH [OF c h] have IH: "path_duration rows xs \<le> entry (EF s) (last xs)" .
  from l have ne: "preds_of rows t \<noteq> []" by auto
  have "entry (EF s) (last xs) \<le> Max (entry (EF s) ` set (preds_of rows t))"
    using l by (intro Max_ge) auto
  with schedule_ok_forward [OF ok t] ne IH show ?case
    by (simp add: path_duration_simps)
qed

section \<open>The best path to a task\<close>

text \<open>The path component of a path info.\<close>

definition info_path :: "path_info \<Rightarrow> string list" where
  "info_path v = snd (snd v)"

lemma best_info_sound:
  assumes v: "valid_dag rows" and ok: "schedule_ok id rows s" and t: "t \<in> set (tasks_of rows)"
  shows "info_path (info_get (best_info s) t) \<noteq> []
         \<and> chain rows (info_path (info_get (best_info s) t))
         \<and> last (info_path (info_get (best_info s) t)) = t
         \<and> preds_of rows (hd (info_path (info_get (best_info s) t))) = []
         \<and> path_duration rows (info_path (info_get (best_info s) t))
             = fst (info_get (best_info s) t)
         \<and> fst (info_get (best_info s) t) = entry (EF s) t
         \<and> fst (snd (info_get (best_info s) t))
             = length (info_path (info_get (best_info s) t))"
  using v t
proof (induction t rule: pred_induct)
  case (task t)
  let ?bi = "info_get (best_info s)"
  show ?case
  proof (cases "preds_of rows t = []")
    case True
    with schedule_ok_info [OF ok task.hyps] have "?bi t = (dur_of rows t, 1, [t])" by simp
    with True schedule_ok_forward [OF ok task.hyps] task.hyps show ?thesis
      by (simp add: info_path_def chain_single path_duration_simps)
  next
    case False
    with schedule_ok_info [OF ok task.hyps] obtain prev where
      fm: "is_first_max (\<lambda>p. info_key (?bi p)) (preds_of rows t) prev"
      and bt: "?bi t = extend_info id (?bi prev) (dur_of rows t) t" by auto
    from is_first_max_mem [OF fm] have pm: "prev \<in> set (preds_of rows t)" .
    note IH = task.IH [OF pm]
    have "fst (?bi prev) = Max (entry (EF s) ` set (preds_of rows t))"
    proof (rule sym, rule Max_eqI)
      show "finite (entry (EF s) ` set (preds_of rows t))" by simp
      show "fst (?bi prev) \<in> entry (EF s) ` set (preds_of rows t)"
        using IH pm by auto
      fix y assume "y \<in> entry (EF s) ` set (preds_of rows t)"
      then obtain p where p: "p \<in> set (preds_of rows t)" and y: "y = entry (EF s) p" by auto
      from is_first_max_greatest [OF fm p] have "fst (?bi p) \<le> fst (?bi prev)"
        by (auto simp: info_key_def)
      with task.IH [OF p] y show "y \<le> fst (?bi prev)" by simp
    qed
    with schedule_ok_forward [OF ok task.hyps] False bt
    have total: "fst (?bi t) = entry (EF s) t" by (simp add: extend_info_def)
    have path: "info_path (?bi t) = info_path (?bi prev) @ [t]"
      using bt by (simp add: extend_info_def info_path_def)
    have cnt: "fst (snd (?bi t)) = fst (snd (?bi prev)) + 1"
      using bt by (simp add: extend_info_def)
    have dur: "fst (?bi t) = fst (?bi prev) + dur_of rows t"
      using bt by (simp add: extend_info_def)
    from IH pm task.hyps have "chain rows (info_path (?bi prev) @ [t])"
      by (simp add: chain_snoc)
    with IH total cnt dur show ?thesis
      by (simp add: path path_duration_simps)
  qed
qed

section \<open>Latest start is the longest way out\<close>

lemma tail_chain_bound:
  assumes v: "valid_dag rows" and ok: "schedule_ok id rows s"
  shows "xs \<noteq> [] \<Longrightarrow> chain rows xs \<Longrightarrow> succs_of rows (last xs) = [] \<Longrightarrow>
         entry (LS s) (hd xs) + path_duration rows xs \<le> project_duration s"
proof (induction xs)
  case Nil
  then show ?case by simp
next
  case (Cons t xs)
  from Cons.prems have t: "t \<in> set (tasks_of rows)" by (simp add: chain_Cons)
  show ?case
  proof (cases "xs = []")
    case True
    with Cons.prems schedule_ok_backward [OF ok t] show ?thesis
      by (simp add: path_duration_simps)
  next
    case False
    with Cons.prems have c: "chain rows xs" and e: "t \<in> set (preds_of rows (hd xs))"
      and l: "succs_of rows (last xs) = []"
      by (simp_all add: chain_Cons)
    from c False have "hd xs \<in> set (tasks_of rows)" by (cases xs) (auto simp: chain_def)
    with e have u: "hd xs \<in> set (succs_of rows t)" by (simp add: valid_dag_succs [OF v])
    then have ne: "succs_of rows t \<noteq> []" by auto
    have "Min (entry (LS s) ` set (succs_of rows t)) \<le> entry (LS s) (hd xs)"
      using u by (intro Min_le) auto
    with schedule_ok_backward [OF ok t] ne Cons.IH [OF False c l] show ?thesis
      by (simp add: path_duration_simps)
  qed
qed

lemma tail_chain_exists:
  assumes v: "valid_dag rows" and ok: "schedule_ok id rows s" and t: "t \<in> set (tasks_of rows)"
  shows "\<exists>xs. chain rows (t # xs) \<and> succs_of rows (last (t # xs)) = []
              \<and> entry (LS s) t + path_duration rows (t # xs) = project_duration s"
  using v t
proof (induction t rule: succ_induct)
  case (task t)
  show ?case
  proof (cases "succs_of rows t = []")
    case True
    with schedule_ok_backward [OF ok task.hyps] task.hyps
    have "chain rows [t] \<and> succs_of rows (last [t]) = []
          \<and> entry (LS s) t + path_duration rows [t] = project_duration s"
      by (simp add: chain_single path_duration_simps)
    then show ?thesis by blast
  next
    case False
    then have "Min (entry (LS s) ` set (succs_of rows t)) \<in> entry (LS s) ` set (succs_of rows t)"
      by (intro Min_in) auto
    then obtain u where u: "u \<in> set (succs_of rows t)"
      and m: "entry (LS s) u = Min (entry (LS s) ` set (succs_of rows t))" by auto
    from task.IH [OF u] obtain xs where
      c: "chain rows (u # xs)" and l: "succs_of rows (last (u # xs)) = []"
      and d: "entry (LS s) u + path_duration rows (u # xs) = project_duration s" by blast
    from u have "t \<in> set (preds_of rows u)" by (simp add: valid_dag_succs [OF v])
    with c task.hyps have "chain rows (t # u # xs)" by (simp add: chain_Cons)
    moreover from l have "succs_of rows (last (t # u # xs)) = []" by simp
    moreover from schedule_ok_backward [OF ok task.hyps] False m d
    have "entry (LS s) t + path_duration rows (t # u # xs) = project_duration s"
      by (simp add: path_duration_simps)
    ultimately show ?thesis by blast
  qed
qed

section \<open>Project duration\<close>

lemma tasks_nonempty: "valid_dag rows \<Longrightarrow> set (tasks_of rows) \<noteq> {}"
  by (simp add: valid_dag_def tasks_of_def)

lemma finish_le_duration:
  assumes ok: "schedule_ok rnd rows s" and t: "t \<in> set (tasks_of rows)"
  shows "entry (EF s) t \<le> project_duration s"
  unfolding schedule_ok_duration [OF ok] using t by (intro Max_ge) auto

lemma duration_attained:
  assumes v: "valid_dag rows" and ok: "schedule_ok rnd rows s"
  shows "\<exists>t \<in> set (tasks_of rows). entry (EF s) t = project_duration s"
proof -
  have "Max (entry (EF s) ` set (tasks_of rows)) \<in> entry (EF s) ` set (tasks_of rows)"
    using tasks_nonempty [OF v] by (intro Max_in) auto
  then show ?thesis unfolding schedule_ok_duration [OF ok] by auto
qed

text \<open>A task finishes no earlier than any of its predecessors.\<close>

lemma finish_along_edge:
  assumes v: "valid_dag rows" and ok: "schedule_ok rnd rows s" and nn: "nonneg_durations rows"
    and rd: "rounding rnd"
    and u: "u \<in> set (tasks_of rows)" and t: "t \<in> set (tasks_of rows)"
    and tu: "t \<in> set (preds_of rows u)"
  shows "entry (EF s) t \<le> entry (EF s) u"
proof -
  from tu have ne: "preds_of rows u \<noteq> []" by auto
  have "entry (EF s) t \<le> Max (entry (EF s) ` set (preds_of rows u))"
    using tu by (intro Max_ge) auto
  with schedule_ok_forward(1) [OF ok u] ne dur_of_nonneg [OF v nn u]
  have "entry (EF s) t \<le> entry (ES s) u + dur_of rows u" by simp
  from rounding_mono [OF rd this] schedule_ok_forward(2) [OF ok u]
  have "rnd (entry (EF s) t) \<le> entry (EF s) u" by simp
  moreover from schedule_ok_forward(2) [OF ok t] rounding_idem [OF rd]
  have "rnd (entry (EF s) t) = entry (EF s) t" by simp
  ultimately show ?thesis by simp
qed

lemma terminal_after:
  assumes v: "valid_dag rows" and ok: "schedule_ok rnd rows s" and nn: "nonneg_durations rows"
    and rd: "rounding rnd" and t: "t \<in> set (tasks_of rows)"
  shows "\<exists>z \<in> set (tasks_of rows). succs_of rows z = [] \<and> entry (EF s) t \<le> entry (EF s) z"
  using v t
proof (induction t rule: succ_induct)
  case (task t)
  show ?case
  proof (cases "succs_of rows t = []")
    case True
    with task.hyps show ?thesis by auto
  next
    case False
    then obtain u where u: "u \<in> set (succs_of rows t)" by (cases "succs_of rows t") auto
    then have ut: "u \<in> set (tasks_of rows)" and tu: "t \<in> set (preds_of rows u)"
      by (simp_all add: valid_dag_succs [OF v])
    from finish_along_edge [OF v ok nn rd ut task.hyps tu]
    have "entry (EF s) t \<le> entry (EF s) u" .
    with task.IH [OF u] show ?thesis by (meson order_trans)
  qed
qed

lemma terminal_attains_duration:
  assumes v: "valid_dag rows" and ok: "schedule_ok rnd rows s" and nn: "nonneg_durations rows"
    and rd: "rounding rnd"
  shows "\<exists>z \<in> set (tasks_of rows). succs_of rows z = [] \<and> entry (EF s) z = project_duration s"
proof -
  from duration_attained [OF v ok] obtain t where t: "t \<in> set (tasks_of rows)"
    and e: "entry (EF s) t = project_duration s" by blast
  from terminal_after [OF v ok nn rd t] obtain z where z: "z \<in> set (tasks_of rows)"
    "succs_of rows z = []" "entry (EF s) t \<le> entry (EF s) z" by blast
  with e finish_le_duration [OF ok z(1)] have "entry (EF s) z = project_duration s" by simp
  with z show ?thesis by blast
qed

section \<open>Slack and the longest paths\<close>

lemma path_le_duration:
  assumes v: "valid_dag rows" and ok: "schedule_ok id rows s" and p: "root_to_terminal rows xs"
  shows "path_duration rows xs \<le> project_duration s"
proof -
  from p have ne: "xs \<noteq> []" and c: "chain rows xs" and h: "preds_of rows (hd xs) = []"
    by (simp_all add: root_to_terminal_def)
  from ne c have "last xs \<in> set (tasks_of rows)" by (auto simp: chain_def)
  from root_chain_bound [OF v ok ne c h] finish_le_duration [OF ok this]
  show ?thesis by simp
qed

lemma path_through:
  assumes v: "valid_dag rows" and ok: "schedule_ok id rows s" and t: "t \<in> set (tasks_of rows)"
  shows "\<exists>xs. root_to_terminal rows xs \<and> t \<in> set xs
              \<and> path_duration rows xs = project_duration s - entry (slack s) t"
proof -
  let ?p = "info_path (info_get (best_info s) t)"
  from best_info_sound [OF v ok t] have p: "?p \<noteq> []" "chain rows ?p" "last ?p = t"
    "preds_of rows (hd ?p) = []" "path_duration rows ?p = entry (EF s) t"
    by simp_all
  from tail_chain_exists [OF v ok t] obtain q where
    q: "chain rows (t # q)" "succs_of rows (last (t # q)) = []"
    "entry (LS s) t + path_duration rows (t # q) = project_duration s" by blast
  let ?xs = "?p @ q"
  from q(1) have cq: "chain rows q" and link: "q = [] \<or> t \<in> set (preds_of rows (hd q))"
    by (simp_all add: chain_Cons)
  have "chain rows ?xs" using p(1,2,3) cq link by (simp add: chain_append)
  moreover have "?xs \<noteq> []" using p(1) by simp
  moreover have "hd ?xs = hd ?p" using p(1) by simp
  moreover have "last ?xs = last (t # q)" using p(1,3) by (cases q) simp_all
  ultimately have rt: "root_to_terminal rows ?xs"
    using p(4) q(2) by (simp add: root_to_terminal_def)
  have "t \<in> set ?p" using p(1,3) last_in_set by fastforce
  then have mem: "t \<in> set ?xs" by simp
  have "path_duration rows ?xs = entry (EF s) t + path_duration rows q"
    using p(5) by (simp add: path_duration_simps)
  also have "\<dots> = project_duration s - entry (slack s) t"
    using q(3) schedule_ok_forward(2) [OF ok t] schedule_ok_backward(3) [OF ok t]
    by (simp add: path_duration_simps)
  finally show ?thesis using rt mem by blast
qed

lemma slack_nonneg:
  assumes v: "valid_dag rows" and ok: "schedule_ok id rows s" and t: "t \<in> set (tasks_of rows)"
  shows "0 \<le> entry (slack s) t"
proof -
  from path_through [OF v ok t] obtain xs where "root_to_terminal rows xs"
    "path_duration rows xs = project_duration s - entry (slack s) t" by blast
  with path_le_duration [OF v ok this(1)] show ?thesis by simp
qed

lemma zero_slack_on_max_path:
  assumes v: "valid_dag rows" and ok: "schedule_ok id rows s" and t: "t \<in> set (tasks_of rows)"
    and z: "entry (slack s) t = 0"
  shows "\<exists>xs. max_path rows xs \<and> t \<in> set xs"
proof -
  from path_through [OF v ok t] z obtain xs where xs: "root_to_terminal rows xs" "t \<in> set xs"
    "path_duration rows xs = project_duration s" by auto
  have "max_path rows xs"
    unfolding max_path_def using xs(1,3) path_le_duration [OF v ok] by simp
  with xs(2) show ?thesis by blast
qed

lemma full_path_exists:
  assumes v: "valid_dag rows" and ok: "schedule_ok id rows s" and nn: "nonneg_durations rows"
  shows "\<exists>xs. root_to_terminal rows xs \<and> path_duration rows xs = project_duration s"
proof -
  from terminal_attains_duration [OF v ok nn rounding_id] obtain z where z: "z \<in> set (tasks_of rows)"
    "succs_of rows z = []" "entry (EF s) z = project_duration s" by blast
  let ?p = "info_path (info_get (best_info s) z)"
  from best_info_sound [OF v ok z(1)] z(2,3)
  have "root_to_terminal rows ?p \<and> path_duration rows ?p = project_duration s"
    by (simp add: root_to_terminal_def)
  then show ?thesis by blast
qed

lemma max_path_duration:
  assumes v: "valid_dag rows" and ok: "schedule_ok id rows s" and nn: "nonneg_durations rows"
    and m: "max_path rows xs"
  shows "path_duration rows xs = project_duration s"
proof -
  from full_path_exists [OF v ok nn] obtain ys where "root_to_terminal rows ys"
    "path_duration rows ys = project_duration s" by blast
  with m have "project_duration s \<le> path_duration rows xs" by (auto simp: max_path_def)
  moreover from m have "root_to_terminal rows xs" by (simp add: max_path_def)
  from path_le_duration [OF v ok this] have "path_duration rows xs \<le> project_duration s" .
  ultimately show ?thesis by simp
qed

lemma on_full_path_zero_slack:
  assumes v: "valid_dag rows" and ok: "schedule_ok id rows s"
    and rt: "root_to_terminal rows xs" and full: "path_duration rows xs = project_duration s"
    and t: "t \<in> set xs"
  shows "entry (slack s) t = 0"
proof -
  from t obtain a b where xs: "xs = a @ t # b" by (auto dest: split_list)
  from rt xs have c: "chain rows (a @ t # b)" and h: "preds_of rows (hd (a @ t # b)) = []"
    and l: "succs_of rows (last (a @ t # b)) = []"
    by (simp_all add: root_to_terminal_def)
  have c_nil: "chain rows []" by (simp add: chain_def)
  from c have ca: "chain rows (a @ [t])" and cb: "chain rows (t # b)"
    using c_nil by (auto simp: chain_append chain_Cons chain_snoc)
  from ca have tt: "t \<in> set (tasks_of rows)" by (simp add: chain_snoc)
  have ha: "preds_of rows (hd (a @ [t])) = []" using h by (cases a) simp_all
  have lb: "succs_of rows (last (t # b)) = []" using l by simp
  from root_chain_bound [OF v ok _ ca ha]
  have 1: "path_duration rows a + dur_of rows t \<le> entry (EF s) t"
    by (simp add: path_duration_simps)
  from tail_chain_bound [OF v ok _ cb lb]
  have 2: "entry (LS s) t + (dur_of rows t + path_duration rows b) \<le> project_duration s"
    by (simp add: path_duration_simps)
  from full xs have 3: "path_duration rows a + (dur_of rows t + path_duration rows b)
                         = project_duration s"
    by (simp add: path_duration_simps)
  from 1 2 3 schedule_ok_forward(2) [OF ok tt] schedule_ok_backward(3) [OF ok tt]
  have "entry (slack s) t \<le> 0" by simp
  with slack_nonneg [OF v ok tt] show ?thesis by simp
qed

section \<open>The selected critical path\<close>

lemma first_max_exists: "xs \<noteq> [] \<Longrightarrow> \<exists>r. is_first_max f xs r"
  using py_max_key_first_max [of xs f] by blast

lemma finish_nonneg:
  assumes v: "valid_dag rows" and ok: "schedule_ok id rows s" and nn: "nonneg_durations rows"
    and t: "t \<in> set (tasks_of rows)"
  shows "0 \<le> entry (EF s) t"
proof -
  let ?p = "info_path (info_get (best_info s) t)"
  from best_info_sound [OF v ok t] have c: "chain rows ?p"
    and d: "path_duration rows ?p = entry (EF s) t" by simp_all
  from c have "\<forall>x \<in> set ?p. 0 \<le> dur_of rows x"
    using dur_of_nonneg [OF v nn] by (auto simp: chain_def)
  then have "0 \<le> sum_list (map (dur_of rows) ?p)" by (intro sum_list_nonneg) auto
  with d show ?thesis by (simp add: path_duration_def)
qed

lemma critical_path_selected:
  assumes v: "valid_dag rows" and ok: "schedule_ok id rows s" and nn: "nonneg_durations rows"
  shows "\<exists>z. is_first_max (\<lambda>t. info_key (info_get (best_info s) t))
                (filter (\<lambda>t. succs_of rows t = []) (tasks_of rows)) z
              \<and> critical_path s = info_path (info_get (best_info s) z)
              \<and> entry (EF s) z = project_duration s"
proof -
  let ?ends = "filter (\<lambda>t. succs_of rows t = []) (tasks_of rows)"
  let ?k = "\<lambda>t. info_key (info_get (best_info s) t)"
  from terminal_attains_duration [OF v ok nn rounding_id] obtain y where y: "y \<in> set (tasks_of rows)"
    "succs_of rows y = []" "entry (EF s) y = project_duration s" by blast
  then have y_end: "y \<in> set ?ends" by simp
  then have "?ends \<noteq> []" by (metis empty_iff empty_set)
  from first_max_exists [OF this] obtain z where fm: "is_first_max ?k ?ends z" by blast
  from is_first_max_mem [OF fm] have z: "z \<in> set (tasks_of rows)" "succs_of rows z = []"
    by simp_all
  note bz = best_info_sound [OF v ok z(1)]
  note by' = best_info_sound [OF v ok y(1)]
  from is_first_max_greatest [OF fm y_end] have "fst (?k y) \<le> fst (?k z)"
    by (auto simp: info_key_def)
  with bz by' y(3) have "project_duration s \<le> entry (EF s) z" by (simp add: info_key_def)
  with finish_le_duration [OF ok z(1)] have ez: "entry (EF s) z = project_duration s" by simp
  have "0 < length (info_path (info_get (best_info s) z))" using bz by simp
  with bz have cnt: "0 < fst (snd (info_get (best_info s) z))" by simp
  from finish_nonneg [OF v ok nn z(1)] bz have "0 \<le> fst (info_get (best_info s) z)" by simp
  with cnt have "((0::real), (0::nat)) < ?k z" by (auto simp: info_key_def)
  from select_path_first_max [OF fm this, of "[]"] schedule_ok_critical [OF ok]
  have "critical_path s = info_path (info_get (best_info s) z)" by (simp add: info_path_def)
  with fm ez show ?thesis by blast
qed

lemma critical_path_full:
  assumes v: "valid_dag rows" and ok: "schedule_ok id rows s" and nn: "nonneg_durations rows"
  shows "root_to_terminal rows (critical_path s)
         \<and> path_duration rows (critical_path s) = project_duration s"
proof -
  from critical_path_selected [OF v ok nn] obtain z where
    fm: "is_first_max (\<lambda>t. info_key (info_get (best_info s) t))
           (filter (\<lambda>t. succs_of rows t = []) (tasks_of rows)) z"
    and cp: "critical_path s = info_path (info_get (best_info s) z)"
    and ez: "entry (EF s) z = project_duration s" by blast
  from is_first_max_mem [OF fm] have z: "z \<in> set (tasks_of rows)" "succs_of rows z = []"
    by simp_all
  from best_info_sound [OF v ok z(1)] z(2) ez cp show ?thesis
    by (simp add: root_to_terminal_def)
qed


lemma schedule_ok_keys:
  assumes "schedule_ok rnd rows s"
  shows "dom (map_of (slack s)) = set (tasks_of rows)"
    and "dom (map_of (best_info s)) = set (tasks_of rows)"
  using assms unfolding schedule_ok_def by blast+

lemma schedule_ok_info_key:
  assumes "schedule_ok rnd rows s" and "t \<in> set (tasks_of rows)"
  shows "getitem (best_info s) t = Inr (info_get (best_info s) t)"
proof -
  from assms schedule_ok_keys(2) [OF assms(1)] have "t \<in> dom (map_of (best_info s))" by simp
  then show ?thesis by (auto simp: getitem_def info_get_def)
qed

lemma schedule_ok_slack_key:
  assumes "schedule_ok rnd rows s" and "t \<in> set (tasks_of rows)"
  shows "getitem (slack s) t = Inr (entry (slack s) t)"
proof -
  from assms schedule_ok_keys(1) [OF assms(1)] have "t \<in> dom (map_of (slack s))" by simp
  then show ?thesis by (rule getitem_entry)
qed

section \<open>Slack and the critical path\<close>

lemma scenario_A_nonneg: "nonneg_durations scenario_A"
  by (simp add: nonneg_durations_def scenario_A_def)

lemma float_rows_nonneg: "nonneg_durations float_rows"
  by (simp add: nonneg_durations_def float_rows_def)

text \<open>
  Claim C6, as the specification states it, does not hold of the code when the
  \<^verbatim>\<open>Duration\<close> column holds floats: the passes and line 100 then add and subtract
  floats. \<^const>\<open>float_rows\<close> is a valid network with the non-negative durations 0.1 and
  0.4, two tasks in sequence, so that both lie on the only path from a root to a
  terminal. Both get the slack \<^verbatim>\<open>-2.7755575615628914e-17\<close>, which is \<open>- (1 / 2 ^ 55)\<close>:
  negative, and not zero.
\<close>

theorem float_slack_negative:
  "valid_dag float_rows \<and> nonneg_durations float_rows
   \<and> map Duration float_rows = [float_round (1 / 10), float_round (2 / 5)]
   \<and> (\<exists>s. compute_cpm float_round float_rows = Inr s
        \<and> critical_path s = [''A'', ''B'']
        \<and> getitem (slack s) ''A'' = Inr (- (1 / 2 ^ 55))
        \<and> getitem (slack s) ''B'' = Inr (- (1 / 2 ^ 55)))"
proof -
  have "map Duration float_rows = [float_round (1 / 10), float_round (2 / 5)]"
    by (simp add: float_rows_def float_tenth float_four_tenths)
  moreover have "\<exists>s. compute_cpm float_round float_rows = Inr s
        \<and> critical_path s = [''A'', ''B'']
        \<and> getitem (slack s) ''A'' = Inr (- (1 / 2 ^ 55))
        \<and> getitem (slack s) ''B'' = Inr (- (1 / 2 ^ 55))"
    by (simp add: run_float_rows getitem_def)
  ultimately show ?thesis using float_rows_valid float_rows_nonneg by simp
qed

text \<open>
  Claim C6, amended. With exact arithmetic (a \<^verbatim>\<open>Duration\<close> column of integers), on a valid
  network with non-negative durations every task has a slack, it is at least 0, and it is
  0 exactly when the task lies on a root-to-terminal path of greatest total duration; the
  selected critical path is such a path.
\<close>

theorem slack_marks_longest_paths:
  assumes "valid_dag rows" and "nonneg_durations rows"
  shows "\<exists>s. compute_cpm id rows = Inr s
           \<and> (\<forall>r \<in> set rows. \<exists>v.
                 getitem (slack s) (Task r) = Inr v \<and> 0 \<le> v
                 \<and> (v = 0 \<longleftrightarrow> (\<exists>xs. max_path rows xs \<and> Task r \<in> set xs)))
           \<and> max_path rows (critical_path s)"
proof -
  from compute_cpm_valid [OF assms(1)] obtain s where
    run: "compute_cpm id rows = Inr s" and ok: "schedule_ok id rows s" by blast
  note v = assms(1) and nn = assms(2)
  have each: "\<forall>r \<in> set rows. \<exists>v.
                 getitem (slack s) (Task r) = Inr v \<and> 0 \<le> v
                 \<and> (v = 0 \<longleftrightarrow> (\<exists>xs. max_path rows xs \<and> Task r \<in> set xs))"
  proof
    fix r assume "r \<in> set rows"
    then have t: "Task r \<in> set (tasks_of rows)" by (simp add: tasks_of_def)
    have "entry (slack s) (Task r) = 0" if "max_path rows xs" "Task r \<in> set xs" for xs
    proof -
      from that(1) have "root_to_terminal rows xs" by (simp add: max_path_def)
      from on_full_path_zero_slack [OF v ok this max_path_duration [OF v ok nn that(1)] that(2)]
      show ?thesis .
    qed
    with zero_slack_on_max_path [OF v ok t]
    have "entry (slack s) (Task r) = 0 \<longleftrightarrow> (\<exists>xs. max_path rows xs \<and> Task r \<in> set xs)"
      by blast
    with schedule_ok_slack_key [OF ok t] slack_nonneg [OF v ok t]
    show "\<exists>v. getitem (slack s) (Task r) = Inr v \<and> 0 \<le> v
                 \<and> (v = 0 \<longleftrightarrow> (\<exists>xs. max_path rows xs \<and> Task r \<in> set xs))"
      by blast
  qed
  from critical_path_full [OF v ok nn] path_le_duration [OF v ok]
  have "max_path rows (critical_path s)" by (simp add: max_path_def)
  with run each show ?thesis by blast
qed

theorem slack_marks_longest_paths_witness:
  "\<exists>s. compute_cpm id scenario_A = Inr s
     \<and> (\<forall>r \<in> set scenario_A. \<exists>v.
           getitem (slack s) (Task r) = Inr v \<and> 0 \<le> v
           \<and> (v = 0 \<longleftrightarrow> (\<exists>xs. max_path scenario_A xs \<and> Task r \<in> set xs)))
     \<and> max_path scenario_A (critical_path s)"
  using slack_marks_longest_paths [OF scenario_A_valid scenario_A_nonneg] .

section \<open>The dynamic program and its tie-breaks\<close>

text \<open>
  A short root task X and two longer root tasks A and B of equal duration, all three
  predecessors of C, which names them in the order X, B, A.
\<close>

definition tied_predecessors :: "task_row list" where
  "tied_predecessors =
     [\<lparr>Task = ''X'', Duration = 1, Predecessors = []\<rparr>,
      \<lparr>Task = ''A'', Duration = 2, Predecessors = []\<rparr>,
      \<lparr>Task = ''B'', Duration = 2, Predecessors = []\<rparr>,
      \<lparr>Task = ''C'', Duration = 1, Predecessors = [''X'', ''B'', ''A'']\<rparr>]"

text \<open>Two independent tasks of equal duration: both are terminal, with equal best tuples.\<close>

definition tied_terminals :: "task_row list" where
  "tied_terminals =
     [\<lparr>Task = ''A'', Duration = 2, Predecessors = []\<rparr>,
      \<lparr>Task = ''B'', Duration = 2, Predecessors = []\<rparr>]"

lemma tied_predecessors_valid: "valid_dag tied_predecessors"
proof -
  have "edges tied_predecessors = {(''X'', ''C''), (''B'', ''C''), (''A'', ''C'')}"
    by (auto simp: edges_Cons edges_Nil tied_predecessors_def)
  moreover have "acyclic {(''X'', ''C''), (''B'', ''C''), (''A'', ''C'')}"
    by (rule acyclicI_order [where f = "\<lambda>t. if t = ''C'' then 0 else (1::nat)"]) auto
  ultimately show ?thesis
    by (simp add: valid_dag_def refs_exist_def tasks_of_def tied_predecessors_def)
qed

lemma tied_terminals_valid: "valid_dag tied_terminals"
proof -
  have "edges tied_terminals = {}"
    by (simp add: edges_Cons edges_Nil tied_terminals_def)
  then have "acyclic (edges tied_terminals)" by (simp add: acyclic_def)
  then show ?thesis
    by (simp add: valid_dag_def refs_exist_def tasks_of_def tied_terminals_def)
qed

lemma tied_terminals_nonneg: "nonneg_durations tied_terminals"
  by (simp add: nonneg_durations_def tied_terminals_def)

lemma run_tied_predecessors:
  "compute_cpm id tied_predecessors =
     Inr \<lparr>topo_order = [''X'', ''A'', ''B'', ''C''],
          ES = [(''X'', 0), (''A'', 0), (''B'', 0), (''C'', 2)],
          EF = [(''X'', 1), (''A'', 2), (''B'', 2), (''C'', 3)],
          project_duration = 3,
          LS = [(''C'', 2), (''B'', 0), (''A'', 0), (''X'', 1)],
          LF = [(''C'', 3), (''B'', 2), (''A'', 2), (''X'', 2)],
          slack = [(''X'', 1), (''A'', 0), (''B'', 0), (''C'', 0)],
          best_info =
            [(''X'', 1, 1, [''X'']), (''A'', 2, 1, [''A'']), (''B'', 2, 1, [''B'']),
             (''C'', 3, 2, [''B'', ''C''])],
          critical_path = [''B'', ''C'']\<rparr>"
  by code_simp

lemma run_tied_terminals:
  "compute_cpm id tied_terminals =
     Inr \<lparr>topo_order = [''A'', ''B''],
          ES = [(''A'', 0), (''B'', 0)],
          EF = [(''A'', 2), (''B'', 2)],
          project_duration = 2,
          LS = [(''B'', 0), (''A'', 0)],
          LF = [(''B'', 2), (''A'', 2)],
          slack = [(''A'', 0), (''B'', 0)],
          best_info = [(''A'', 2, 1, [''A'']), (''B'', 2, 1, [''B''])],
          critical_path = [''A'']\<rparr>"
  by code_simp

lemma is_first_max_split:
  assumes "is_first_max f xs r" and "xs = pre @ r # post" and "distinct xs"
  shows "\<forall>y \<in> set pre. f y < f r"
proof -
  from assms(1) obtain pre' post' where
    x: "xs = pre' @ r # post'" and lt: "\<forall>y \<in> set pre'. f y < f r"
    unfolding is_first_max_def by blast
  from assms(2,3) have 1: "r \<notin> set pre" "r \<notin> set post" by auto
  from assms(3) x have 2: "r \<notin> set pre'" "r \<notin> set post'" by auto
  from assms(2) x have "pre @ r # post = pre' @ r # post'" by simp
  with 1 2 have "pre = pre'" by (simp add: append_Cons_eq_iff)
  with lt show ?thesis by simp
qed

subsection \<open>The stored tuples\<close>

text \<open>
  The pairs \<^verbatim>\<open>(total_duration, node_count)\<close> are compared as Python compares tuples:
  by the first component, and by the second when the first components are equal.
\<close>

lemma info_key_le:
  "info_key (d, c, p) \<le> info_key (d', c', p') \<longleftrightarrow> d < d' \<or> d = d' \<and> c \<le> c'"
  by (auto simp: info_key_def)

lemma info_key_less:
  "info_key (d, c, p) < info_key (d', c', p') \<longleftrightarrow> d < d' \<or> d = d' \<and> c < c'"
  by (auto simp: info_key_def)

lemma schedule_ok_stored:
  assumes "schedule_ok rnd rows s" and "t \<in> set (tasks_of rows)"
  shows "\<exists>d c p. getitem (best_info s) t = Inr (d, c, p) \<and> info_get (best_info s) t = (d, c, p)"
  using schedule_ok_info_key [OF assms] by (cases "info_get (best_info s) t") simp

lemma end_tasks_successors_dict:
  "end_tasks (tasks_of rows) (successors_dict rows)
     = filter (\<lambda>t. succs_of rows t = []) (tasks_of rows)"
  by (simp add: end_tasks_def dd_get_successors_dict)

lemma best_info_shape:
  assumes v: "valid_dag rows" and ok: "schedule_ok rnd rows s" and t: "t \<in> set (tasks_of rows)"
  shows "info_path (info_get (best_info s) t) \<noteq> []
         \<and> last (info_path (info_get (best_info s) t)) = t
         \<and> fst (snd (info_get (best_info s) t))
             = length (info_path (info_get (best_info s) t))"
  using v t
proof (induction t rule: pred_induct)
  case (task t)
  let ?bi = "info_get (best_info s)"
  show ?case
  proof (cases "preds_of rows t = []")
    case True
    with schedule_ok_info [OF ok task.hyps] have "?bi t = (dur_of rows t, 1, [t])" by simp
    then show ?thesis by (simp add: info_path_def)
  next
    case False
    with schedule_ok_info [OF ok task.hyps] obtain prev where
      fm: "is_first_max (\<lambda>p. info_key (?bi p)) (preds_of rows t) prev"
      and bt: "?bi t = extend_info rnd (?bi prev) (dur_of rows t) t" by auto
    from task.IH [OF is_first_max_mem [OF fm]] bt show ?thesis
      by (simp add: extend_info_def info_path_def)
  qed
qed

lemma best_total_nonneg:
  assumes v: "valid_dag rows" and ok: "schedule_ok rnd rows s" and nn: "nonneg_durations rows"
    and ks: "keeps_sign rnd" and t: "t \<in> set (tasks_of rows)"
  shows "0 \<le> fst (info_get (best_info s) t)"
  using v t
proof (induction t rule: pred_induct)
  case (task t)
  let ?bi = "info_get (best_info s)"
  note d = dur_of_nonneg [OF v nn task.hyps]
  show ?case
  proof (cases "preds_of rows t = []")
    case True
    with schedule_ok_info [OF ok task.hyps] d show ?thesis by simp
  next
    case False
    with schedule_ok_info [OF ok task.hyps] obtain prev where
      fm: "is_first_max (\<lambda>p. info_key (?bi p)) (preds_of rows t) prev"
      and bt: "?bi t = extend_info rnd (?bi prev) (dur_of rows t) t" by auto
    from task.IH [OF is_first_max_mem [OF fm]] d have "0 \<le> fst (?bi prev) + dur_of rows t"
      by simp
    with ks have "0 \<le> rnd (fst (?bi prev) + dur_of rows t)" by (simp add: keeps_sign_def)
    with bt show ?thesis by (simp add: extend_info_def)
  qed
qed

lemma terminal_exists:
  assumes v: "valid_dag rows"
  shows "filter (\<lambda>t. succs_of rows t = []) (tasks_of rows) \<noteq> []"
proof -
  from v obtain r where "r \<in> set rows" by (cases rows) (auto simp: valid_dag_def)
  then have "Task r \<in> set (tasks_of rows)" by (simp add: tasks_of_def)
  then obtain t where t: "t \<in> set (tasks_of rows)" ..
  have "\<exists>z \<in> set (tasks_of rows). succs_of rows z = []"
    using v t
  proof (induction t rule: succ_induct)
    case (task t)
    show ?case
    proof (cases "succs_of rows t = []")
      case True
      with task.hyps show ?thesis by auto
    next
      case False
      then obtain u where "u \<in> set (succs_of rows t)" by (cases "succs_of rows t") auto
      from task.IH [OF this] show ?thesis .
    qed
  qed
  then show ?thesis by (auto simp: filter_empty_conv)
qed

lemma critical_path_first_max:
  assumes v: "valid_dag rows" and ok: "schedule_ok rnd rows s" and nn: "nonneg_durations rows"
    and ks: "keeps_sign rnd"
  shows "\<exists>z. is_first_max (\<lambda>t. info_key (info_get (best_info s) t))
                (filter (\<lambda>t. succs_of rows t = []) (tasks_of rows)) z
              \<and> critical_path s = info_path (info_get (best_info s) z)"
proof -
  let ?ends = "filter (\<lambda>t. succs_of rows t = []) (tasks_of rows)"
  let ?k = "\<lambda>t. info_key (info_get (best_info s) t)"
  from first_max_exists [OF terminal_exists [OF v]] obtain z where
    fm: "is_first_max ?k ?ends z" by blast
  from is_first_max_mem [OF fm] have z: "z \<in> set (tasks_of rows)" by simp
  from best_info_shape [OF v ok z] have "0 < fst (snd (info_get (best_info s) z))" by simp
  with best_total_nonneg [OF v ok nn ks z] have "((0::real), (0::nat)) < ?k z"
    by (auto simp: info_key_def)
  from select_path_first_max [OF fm this, of "[]"] schedule_ok_critical [OF ok]
  have "critical_path s = info_path (info_get (best_info s) z)" by (simp add: info_path_def)
  with fm show ?thesis by blast
qed

lemma root_entry:
  assumes v: "valid_dag rows" and run: "compute_cpm rnd rows = Inr s"
    and r: "r \<in> set rows" and root: "Predecessors r = []"
  shows "getitem (best_info s) (Task r) = Inr (Duration r, 1, [Task r])"
proof -
  note ok = valid_dag_unique_run [OF v run]
  from r have t: "Task r \<in> set (tasks_of rows)" by (simp add: tasks_of_def)
  note dist = valid_dag_dist [OF v]
  from schedule_ok_info [OF ok t] preds_of_row [OF dist r] dur_of_row [OF dist r] root
    schedule_ok_info_key [OF ok t]
  show ?thesis by simp
qed

lemma extended_entry:
  assumes v: "valid_dag rows" and ok: "schedule_ok rnd rows s"
    and r: "r \<in> set rows" and ne: "Predecessors r \<noteq> []"
  shows "\<exists>prev pd pc pp.
           is_first_max (\<lambda>p. info_key (info_get (best_info s) p)) (Predecessors r) prev
           \<and> getitem (best_info s) prev = Inr (pd, pc, pp)
           \<and> info_get (best_info s) prev = (pd, pc, pp)
           \<and> getitem (best_info s) (Task r) =
               Inr (rnd (pd + Duration r), pc + 1, pp @ [Task r])"
proof -
  let ?bi = "info_get (best_info s)"
  from r have t: "Task r \<in> set (tasks_of rows)" by (simp add: tasks_of_def)
  note dist = valid_dag_dist [OF v]
  note P = preds_of_row [OF dist r] and D = dur_of_row [OF dist r]
  from schedule_ok_info [OF ok t] P D ne obtain prev where
    fm: "is_first_max (\<lambda>p. info_key (?bi p)) (Predecessors r) prev"
    and e: "?bi (Task r) = extend_info rnd (?bi prev) (Duration r) (Task r)" by auto
  from is_first_max_mem [OF fm] P have "prev \<in> set (preds_of rows (Task r))" by simp
  from valid_dag_preds [OF v t this] have pt: "prev \<in> set (tasks_of rows)" .
  from schedule_ok_stored [OF ok pt] obtain pd pc pp where
    g: "getitem (best_info s) prev = Inr (pd, pc, pp)" and i: "?bi prev = (pd, pc, pp)"
    by blast
  from e i schedule_ok_info_key [OF ok t]
  have "getitem (best_info s) (Task r) = Inr (rnd (pd + Duration r), pc + 1, pp @ [Task r])"
    by (simp add: extend_info_def)
  with fm g i show ?thesis by blast
qed



text \<open>
  Claim C10. On a valid network, when several predecessors of a task share the greatest
  stored pair \<^verbatim>\<open>(total_duration, node_count)\<close>, the one standing first in the task's
  declared predecessor list is chosen: whenever the list splits as \<open>pre @ prev # post\<close>
  with \<open>prev\<close> storing \<open>(pd, pc, pp)\<close>, every predecessor in \<open>pre\<close> storing a pair strictly
  below \<open>(pd, pc)\<close> and every predecessor in \<open>post\<close> storing a pair not above it, the
  task's entry is \<open>(pd + duration, pc + 1, pp + [task])\<close>, the tuple of \<open>prev\<close> extended
  by the task.
\<close>

theorem predecessor_tie_break:
  assumes "valid_dag rows"
  shows "\<exists>s. compute_cpm rnd rows = Inr s
           \<and> (\<forall>r \<in> set rows. \<forall>pre prev post pd pc pp.
                 Predecessors r = pre @ prev # post
                 \<and> getitem (best_info s) prev = Inr (pd, pc, pp)
                 \<and> (\<forall>p \<in> set pre. \<exists>qd qc qp.
                       getitem (best_info s) p = Inr (qd, qc, qp)
                       \<and> (qd < pd \<or> qd = pd \<and> qc < pc))
                 \<and> (\<forall>p \<in> set post. \<exists>qd qc qp.
                       getitem (best_info s) p = Inr (qd, qc, qp)
                       \<and> (qd < pd \<or> qd = pd \<and> qc \<le> pc))
                 \<longrightarrow> getitem (best_info s) (Task r) =
                       Inr (rnd (pd + Duration r), pc + 1, pp @ [Task r]))"
proof -
  from compute_cpm_valid [OF assms] obtain s where
    run: "compute_cpm rnd rows = Inr s" and ok: "schedule_ok rnd rows s" by blast
  let ?bi = "info_get (best_info s)"
  have stored: "?bi p = (d, c, path)" if "getitem (best_info s) p = Inr (d, c, path)"
    for p d c path
    using that by (auto simp: getitem_def info_get_def split: option.splits)
  have "\<forall>r \<in> set rows. \<forall>pre prev post pd pc pp.
                 Predecessors r = pre @ prev # post
                 \<and> getitem (best_info s) prev = Inr (pd, pc, pp)
                 \<and> (\<forall>p \<in> set pre. \<exists>qd qc qp.
                       getitem (best_info s) p = Inr (qd, qc, qp)
                       \<and> (qd < pd \<or> qd = pd \<and> qc < pc))
                 \<and> (\<forall>p \<in> set post. \<exists>qd qc qp.
                       getitem (best_info s) p = Inr (qd, qc, qp)
                       \<and> (qd < pd \<or> qd = pd \<and> qc \<le> pc))
                 \<longrightarrow> getitem (best_info s) (Task r) =
                       Inr (rnd (pd + Duration r), pc + 1, pp @ [Task r])"
  proof (intro ballI allI impI)
    fix r pre prev post pd pc pp
    assume r: "r \<in> set rows"
      and a: "Predecessors r = pre @ prev # post
                 \<and> getitem (best_info s) prev = Inr (pd, pc, pp)
                 \<and> (\<forall>p \<in> set pre. \<exists>qd qc qp.
                       getitem (best_info s) p = Inr (qd, qc, qp)
                       \<and> (qd < pd \<or> qd = pd \<and> qc < pc))
                 \<and> (\<forall>p \<in> set post. \<exists>qd qc qp.
                       getitem (best_info s) p = Inr (qd, qc, qp)
                       \<and> (qd < pd \<or> qd = pd \<and> qc \<le> pc))"
    from a have i: "?bi prev = (pd, pc, pp)" by (simp add: stored)
    have 1: "\<forall>p \<in> set pre. info_key (?bi p) < info_key (?bi prev)"
    proof
      fix p assume "p \<in> set pre"
      with a obtain qd qc qp where "getitem (best_info s) p = Inr (qd, qc, qp)"
        "qd < pd \<or> qd = pd \<and> qc < pc" by blast
      with i show "info_key (?bi p) < info_key (?bi prev)"
        by (simp add: stored info_key_less)
    qed
    have 2: "\<forall>p \<in> set post. info_key (?bi p) \<le> info_key (?bi prev)"
    proof
      fix p assume "p \<in> set post"
      with a obtain qd qc qp where "getitem (best_info s) p = Inr (qd, qc, qp)"
        "qd < pd \<or> qd = pd \<and> qc \<le> pc" by blast
      with i show "info_key (?bi p) \<le> info_key (?bi prev)"
        by (simp add: stored info_key_le)
    qed
    from a 1 2 have fm: "is_first_max (\<lambda>p. info_key (?bi p)) (Predecessors r) prev"
      unfolding is_first_max_def by blast
    from a have "Predecessors r \<noteq> []" by auto
    from extended_entry [OF assms ok r this] obtain prev' pd' pc' pp' where
      fm': "is_first_max (\<lambda>p. info_key (?bi p)) (Predecessors r) prev'"
      and i': "?bi prev' = (pd', pc', pp')"
      and e: "getitem (best_info s) (Task r) =
                Inr (rnd (pd' + Duration r), pc' + 1, pp' @ [Task r])" by blast
    from is_first_max_unique [OF fm fm'] i i' e
    show "getitem (best_info s) (Task r) =
            Inr (rnd (pd + Duration r), pc + 1, pp @ [Task r])" by simp
  qed
  with run show ?thesis by blast
qed

theorem predecessor_tie_break_witness:
  "valid_dag tied_predecessors
   \<and> (\<exists>s. compute_cpm id tied_predecessors = Inr s
        \<and> getitem (best_info s) ''X'' = Inr (1, 1, [''X''])
        \<and> getitem (best_info s) ''B'' = Inr (2, 1, [''B''])
        \<and> getitem (best_info s) ''A'' = Inr (2, 1, [''A''])
        \<and> getitem (best_info s) ''C'' = Inr (3, 2, [''B'', ''C'']))"
proof -
  from predecessor_tie_break [OF tied_predecessors_valid, of id] obtain s where
    run: "compute_cpm id tied_predecessors = Inr s"
    and tb: "\<forall>r \<in> set tied_predecessors. \<forall>pre prev post pd pc pp.
                 Predecessors r = pre @ prev # post
                 \<and> getitem (best_info s) prev = Inr (pd, pc, pp)
                 \<and> (\<forall>p \<in> set pre. \<exists>qd qc qp.
                       getitem (best_info s) p = Inr (qd, qc, qp)
                       \<and> (qd < pd \<or> qd = pd \<and> qc < pc))
                 \<and> (\<forall>p \<in> set post. \<exists>qd qc qp.
                       getitem (best_info s) p = Inr (qd, qc, qp)
                       \<and> (qd < pd \<or> qd = pd \<and> qc \<le> pc))
                 \<longrightarrow> getitem (best_info s) (Task r) =
                       Inr (id (pd + Duration r), pc + 1, pp @ [Task r])"
    by blast
  note root = root_entry [OF tied_predecessors_valid run]
  have x: "getitem (best_info s) ''X'' = Inr (1, 1, [''X''])"
    using root [of "\<lparr>Task = ''X'', Duration = 1, Predecessors = []\<rparr>"]
    by (simp add: tied_predecessors_def)
  have a: "getitem (best_info s) ''A'' = Inr (2, 1, [''A''])"
    using root [of "\<lparr>Task = ''A'', Duration = 2, Predecessors = []\<rparr>"]
    by (simp add: tied_predecessors_def)
  have b: "getitem (best_info s) ''B'' = Inr (2, 1, [''B''])"
    using root [of "\<lparr>Task = ''B'', Duration = 2, Predecessors = []\<rparr>"]
    by (simp add: tied_predecessors_def)
  have "getitem (best_info s) ''C'' = Inr (3, 2, [''B'', ''C''])"
    using tb [rule_format,
        of "\<lparr>Task = ''C'', Duration = 1, Predecessors = [''X'', ''B'', ''A'']\<rparr>"
           "[''X'']" "''B''" "[''A'']" 2 1 "[''B'']"] x a b
    by (simp add: tied_predecessors_def)
  with run x a b tied_predecessors_valid show ?thesis by blast
qed

text \<open>
  Claim C9. The computation is a function of its input: on a valid network (durations
  non-negative, the arithmetic keeping the sign of a non-negative result) there is
  exactly one result. Of two terminal tasks with equal pairs
  \<^verbatim>\<open>(total_duration, node_count)\<close> the later one in task order is never the task whose path
  is selected, and a terminal that is the first to reach the greatest pair is the one
  selected. The pairs are those of the tuples stored in \<^verbatim>\<open>best_info\<close>.
\<close>

theorem deterministic_terminal_choice:
  assumes "valid_dag rows" and "nonneg_durations rows" and "keeps_sign rnd"
  shows "\<exists>s. compute_cpm rnd rows = Inr s
           \<and> (\<forall>s'. compute_cpm rnd rows = Inr s' \<longrightarrow> s' = s)
           \<and> (\<forall>pre t1 mid t2 post.
                 filter (\<lambda>t. succs_of rows t = []) (tasks_of rows) = pre @ t1 # mid @ t2 # post
                 \<and> info_key (info_get (best_info s) t1) = info_key (info_get (best_info s) t2)
                 \<longrightarrow> critical_path s \<noteq> snd (snd (info_get (best_info s) t2)))
           \<and> (\<forall>pre z post.
                 filter (\<lambda>t. succs_of rows t = []) (tasks_of rows) = pre @ z # post
                 \<and> (\<forall>t \<in> set pre. info_key (info_get (best_info s) t)
                                     < info_key (info_get (best_info s) z))
                 \<and> (\<forall>t \<in> set post. info_key (info_get (best_info s) t)
                                      \<le> info_key (info_get (best_info s) z))
                 \<longrightarrow> critical_path s = snd (snd (info_get (best_info s) z)))
           \<and> (\<forall>t \<in> set (tasks_of rows).
                 getitem (best_info s) t = Inr (info_get (best_info s) t))
           \<and> end_tasks (tasks_of rows) (successors_dict rows)
               = filter (\<lambda>t. succs_of rows t = []) (tasks_of rows)"
proof -
  from compute_cpm_valid [OF assms(1)] obtain s where
    run: "compute_cpm rnd rows = Inr s" and ok: "schedule_ok rnd rows s" by blast
  note v = assms(1) and nn = assms(2) and ks = assms(3)
  let ?bi = "info_get (best_info s)"
  let ?ends = "filter (\<lambda>t. succs_of rows t = []) (tasks_of rows)"
  let ?k = "\<lambda>t. info_key (?bi t)"
  from valid_dag_dist [OF v] have dends: "distinct ?ends" by simp
  from critical_path_first_max [OF v ok nn ks] obtain z0 where
    fm0: "is_first_max ?k ?ends z0" and cp: "critical_path s = info_path (?bi z0)" by blast
  from is_first_max_mem [OF fm0] have z0: "z0 \<in> set (tasks_of rows)" by simp
  have one: "\<forall>s'. compute_cpm rnd rows = Inr s' \<longrightarrow> s' = s" using run by simp
  have later: "\<forall>pre t1 mid t2 post.
                 ?ends = pre @ t1 # mid @ t2 # post \<and> ?k t1 = ?k t2
                 \<longrightarrow> critical_path s \<noteq> snd (snd (?bi t2))"
  proof (intro allI impI notI)
    fix pre t1 mid t2 post
    assume a: "?ends = pre @ t1 # mid @ t2 # post \<and> ?k t1 = ?k t2"
      and eq: "critical_path s = snd (snd (?bi t2))"
    from a have "t2 \<in> set ?ends" by (metis in_set_conv_decomp append_Cons append_assoc)
    then have t2: "t2 \<in> set (tasks_of rows)" by simp
    from best_info_shape [OF v ok z0] best_info_shape [OF v ok t2] cp eq
    have "z0 = t2" by (simp add: info_path_def)
    with fm0 have fm: "is_first_max ?k ?ends t2" by simp
    from a have "?ends = (pre @ t1 # mid) @ t2 # post" by simp
    from is_first_max_split [OF fm this dends] have "?k t1 < ?k t2" by simp
    with a show False by simp
  qed
  have first: "\<forall>pre z post.
                 ?ends = pre @ z # post
                 \<and> (\<forall>t \<in> set pre. ?k t < ?k z) \<and> (\<forall>t \<in> set post. ?k t \<le> ?k z)
                 \<longrightarrow> critical_path s = snd (snd (?bi z))"
  proof (intro allI impI)
    fix pre z post
    assume "?ends = pre @ z # post
                 \<and> (\<forall>t \<in> set pre. ?k t < ?k z) \<and> (\<forall>t \<in> set post. ?k t \<le> ?k z)"
    then have "is_first_max ?k ?ends z" unfolding is_first_max_def by blast
    from is_first_max_unique [OF fm0 this] cp
    show "critical_path s = snd (snd (?bi z))" by (simp add: info_path_def)
  qed
  have stored: "\<forall>t \<in> set (tasks_of rows). getitem (best_info s) t = Inr (?bi t)"
    using schedule_ok_info_key [OF ok] by blast
  from run one later first stored end_tasks_successors_dict [of rows] show ?thesis by blast
qed

theorem deterministic_terminal_choice_witness:
  "\<exists>s. compute_cpm id tied_terminals = Inr s
     \<and> (\<forall>s'. compute_cpm id tied_terminals = Inr s' \<longrightarrow> s' = s)
     \<and> (\<forall>pre t1 mid t2 post.
           filter (\<lambda>t. succs_of tied_terminals t = []) (tasks_of tied_terminals)
             = pre @ t1 # mid @ t2 # post
           \<and> info_key (info_get (best_info s) t1) = info_key (info_get (best_info s) t2)
           \<longrightarrow> critical_path s \<noteq> snd (snd (info_get (best_info s) t2)))
     \<and> (\<forall>pre z post.
           filter (\<lambda>t. succs_of tied_terminals t = []) (tasks_of tied_terminals)
             = pre @ z # post
           \<and> (\<forall>t \<in> set pre. info_key (info_get (best_info s) t)
                               < info_key (info_get (best_info s) z))
           \<and> (\<forall>t \<in> set post. info_key (info_get (best_info s) t)
                                \<le> info_key (info_get (best_info s) z))
           \<longrightarrow> critical_path s = snd (snd (info_get (best_info s) z)))
     \<and> (\<forall>t \<in> set (tasks_of tied_terminals).
           getitem (best_info s) t = Inr (info_get (best_info s) t))
     \<and> end_tasks (tasks_of tied_terminals) (successors_dict tied_terminals)
         = filter (\<lambda>t. succs_of tied_terminals t = []) (tasks_of tied_terminals)"
  using deterministic_terminal_choice [OF tied_terminals_valid tied_terminals_nonneg keeps_sign_id] .

section \<open>Project duration and the critical path\<close>

text \<open>
  \<^verbatim>\<open>sum(xs)\<close> in the arithmetic of the durations: the items are added to 0 from left to
  right. In exact arithmetic it is the sum.
\<close>

definition py_sum :: "(real \<Rightarrow> real) \<Rightarrow> real list \<Rightarrow> real" where
  "py_sum rnd xs = fold (\<lambda>x acc. rnd (acc + x)) xs 0"


lemma fold_add_sum_list: "fold (\<lambda>x acc. acc + x) xs (a::real) = a + sum_list xs"
  by (induction xs arbitrary: a) simp_all

lemma py_sum_id: "py_sum id xs = sum_list xs"
  by (simp add: py_sum_def fold_add_sum_list)






end
